theory Spec2Isabelle
  imports Main "HOL-Library.AList" "HOL-Library.Log_Nat"
begin

section \<open>Python exceptions\<close>

datatype error =
    AttributeError
  | KeyError
  | TypeError
  | ValueError
  | StopIteration
  | OverflowError
  | ZeroDivisionError
  | IndexError
  | Exception string

section \<open>Strings\<close>

text \<open>
  Strings are lists of characters with code points below 256. Whitespace is what
  \<^verbatim>\<open>str.isspace\<close> accepts in that range; \<^verbatim>\<open>str.strip()\<close> and the regular
  expression class \<^verbatim>\<open>\s\<close> both use it.
\<close>

abbreviation NL :: char where "NL \<equiv> CHR 0x0A"

definition is_space :: "char \<Rightarrow> bool" where
  "is_space c = ((of_char c :: nat) \<in> {9, 10, 11, 12, 13, 28, 29, 30, 31, 32, 133, 160})"

definition py_strip :: "string \<Rightarrow> string" where
  "py_strip s = rev (dropWhile is_space (rev (dropWhile is_space s)))"

fun split_nl :: "string \<Rightarrow> string list" where
  "split_nl [] = [[]]"
| "split_nl (c # cs) =
     (if c = NL then [] # split_nl cs
      else (let r = split_nl cs in (c # hd r) # tl r))"

section \<open>Regular expressions\<close>

text \<open>
  The fragment of \<^verbatim>\<open>re\<close> the script uses: literal characters, \<^verbatim>\<open>\s\<close>, \<^verbatim>\<open>\S\<close>,
  \<^verbatim>\<open>.\<close>, the greedy repetitions \<^verbatim>\<open>*\<close> and \<^verbatim>\<open>+\<close> of one of these, groups that are
  not nested, \<^verbatim>\<open>^\<close> and \<^verbatim>\<open>$\<close>. A match is the list of the positions where its groups
  open and close. Repetition is greedy with backtracking: the longest run is tried
  first, then each shorter one. \<^verbatim>\<open>re.search\<close> tries the start positions from left
  to right.
\<close>

datatype cclass = Lit char | Space | NonSpace | AnyChar

datatype rx = One cclass | Star cclass | Plus cclass | Open | Close | Bol | Eol

fun cc_matches :: "cclass \<Rightarrow> char \<Rightarrow> bool" where
  "cc_matches (Lit c) x = (x = c)"
| "cc_matches Space x = is_space x"
| "cc_matches NonSpace x = (\<not> is_space x)"
| "cc_matches AnyChar x = (x \<noteq> NL)"

primrec first_some :: "'a option list \<Rightarrow> 'a option" where
  "first_some [] = None"
| "first_some (x # xs) = (case x of Some y \<Rightarrow> Some y | None \<Rightarrow> first_some xs)"

definition greedy_counts :: "nat \<Rightarrow> nat \<Rightarrow> nat list" where
  "greedy_counts lo hi = rev [lo ..< Suc hi]"

fun rx_match :: "rx list \<Rightarrow> nat \<Rightarrow> string \<Rightarrow> nat list \<Rightarrow> nat list option" where
  "rx_match [] pos s marks = Some (rev marks)"
| "rx_match (One c # r) pos s marks =
     (case s of
        [] \<Rightarrow> None
      | x # xs \<Rightarrow> if cc_matches c x then rx_match r (Suc pos) xs marks else None)"
| "rx_match (Star c # r) pos s marks =
     first_some (map (\<lambda>n. rx_match r (pos + n) (drop n s) marks)
       (greedy_counts 0 (length (takeWhile (cc_matches c) s))))"
| "rx_match (Plus c # r) pos s marks =
     first_some (map (\<lambda>n. rx_match r (pos + n) (drop n s) marks)
       (greedy_counts 1 (length (takeWhile (cc_matches c) s))))"
| "rx_match (Open # r) pos s marks = rx_match r pos s (pos # marks)"
| "rx_match (Close # r) pos s marks = rx_match r pos s (pos # marks)"
| "rx_match (Bol # r) pos s marks = (if pos = 0 then rx_match r pos s marks else None)"
| "rx_match (Eol # r) pos s marks =
     (if s = [] \<or> s = [NL] then rx_match r pos s marks else None)"

text \<open>The search from position \<open>pos\<close> on, where \<open>s\<close> is the rest of the string there.\<close>

fun search_from :: "rx list \<Rightarrow> nat \<Rightarrow> string \<Rightarrow> nat list option" where
  "search_from p pos [] = rx_match p pos [] []"
| "search_from p pos (c # s) =
     (case rx_match p pos (c # s) [] of
        Some marks \<Rightarrow> Some marks
      | None \<Rightarrow> search_from p (Suc pos) s)"

definition re_search :: "rx list \<Rightarrow> string \<Rightarrow> nat list option" where
  "re_search p s = search_from p 0 s"

text \<open>
  The text of group \<open>n\<close> of a match, for the groups of the pattern (numbered from 1);
  a group the pattern does not have is an IndexError.
\<close>

definition group :: "string \<Rightarrow> nat list \<Rightarrow> nat \<Rightarrow> error + string" where
  "group s marks n =
     (if 1 \<le> n \<and> 2 * n \<le> length marks
      then Inr (take (marks ! (2 * n - 1) - marks ! (2 * n - 2)) (drop (marks ! (2 * n - 2)) s))
      else Inl IndexError)"

text \<open>\<^verbatim>\<open>re.search(p, s).group(n)\<close>: an AttributeError when there is no match.\<close>

definition search_group :: "rx list \<Rightarrow> string \<Rightarrow> nat \<Rightarrow> error + string" where
  "search_group p s n =
     (case re_search p s of None \<Rightarrow> Inl AttributeError | Some marks \<Rightarrow> group s marks n)"

definition lits :: "string \<Rightarrow> rx list" where
  "lits s = map (\<lambda>c. One (Lit c)) s"

section \<open>Integers\<close>

definition hex_val :: "char \<Rightarrow> int option" where
  "hex_val c =
     (let n = (of_char c :: nat) in
      if 48 \<le> n \<and> n \<le> 57 then Some (int n - 48)
      else if 97 \<le> n \<and> n \<le> 102 then Some (int n - 87)
      else if 65 \<le> n \<and> n \<le> 70 then Some (int n - 55)
      else None)"

fun hex_digits :: "int \<Rightarrow> string \<Rightarrow> int option" where
  "hex_digits acc [] = Some acc"
| "hex_digits acc [c] = (case hex_val c of None \<Rightarrow> None | Some v \<Rightarrow> Some (acc * 16 + v))"
| "hex_digits acc (c # d # ds) =
     (if c = CHR ''_'' then
        (case hex_val d of None \<Rightarrow> None | Some v \<Rightarrow> hex_digits (acc * 16 + v) ds)
      else
        (case hex_val c of None \<Rightarrow> None | Some v \<Rightarrow> hex_digits (acc * 16 + v) (d # ds)))"

text \<open>
  \<^verbatim>\<open>int(s, 16)\<close>: surrounding whitespace (the separators 28 to 31 are not
  whitespace here), an optional sign, an optional \<^verbatim>\<open>0x\<close> prefix
  (after which one underscore may stand), then hexadecimal digits with single
  underscores between them. Anything else is a ValueError.
\<close>

definition is_int_space :: "char \<Rightarrow> bool" where
  "is_int_space c = ((of_char c :: nat) \<in> {9, 10, 11, 12, 13, 32, 133, 160})"

definition py_int16 :: "string \<Rightarrow> error + int" where
  "py_int16 s =
     (let t = rev (dropWhile is_int_space (rev (dropWhile is_int_space s)));
          neg = (take 1 t = ''-'');
          t1 = (if take 1 t = ''-'' \<or> take 1 t = ''+'' then drop 1 t else t);
          t2 = (if take 2 t1 = ''0x'' \<or> take 2 t1 = ''0X''
                then (if take 1 (drop 2 t1) = ''_'' then drop 3 t1 else drop 2 t1)
                else t1)
      in (case t2 of
            [] \<Rightarrow> Inl ValueError
          | c # cs \<Rightarrow>
              (case hex_val c of
                 None \<Rightarrow> Inl ValueError
               | Some v \<Rightarrow>
                   (case hex_digits v cs of
                      None \<Rightarrow> Inl ValueError
                    | Some n \<Rightarrow> Inr (if neg then - n else n)))))"

text \<open>
  \<^verbatim>\<open>int(a / b)\<close> for integers \<open>a\<close> and \<open>b\<close>. The quotient \<^verbatim>\<open>a / b\<close> is a float: the
  exact quotient rounded to the nearest number with a 53-bit significand, ties to
  even. \<^verbatim>\<open>int\<close> then drops the fraction.
\<close>

definition round_half_even :: "int \<Rightarrow> int \<Rightarrow> int" where
  "round_half_even x y =
     (let d = x div y; r = x mod y in
      if 2 * r < y then d
      else if 2 * r > y then d + 1
      else if even d then d else d + 1)"

definition int_truediv :: "int \<Rightarrow> int \<Rightarrow> error + int" where
  "int_truediv a b =
     (if b = 0 then Inl ZeroDivisionError
      else
        (let x = \<bar>a\<bar>; y = \<bar>b\<bar>; n = x div y;
             m = (if n < 2 ^ 52
                  then (let k = nat (53 - bitlen n) in round_half_even (x * 2 ^ k) y div 2 ^ k)
                  else (let k = nat (bitlen n - 53) in round_half_even x (y * 2 ^ k) * 2 ^ k))
         in if 2 ^ 1024 \<le> m then Inl OverflowError
            else Inr (if (a < 0) \<noteq> (b < 0) then - m else m)))"

section \<open>Python values\<close>

datatype pyval =
    PNone
  | PInt int
  | PStr string
  | PList "pyval list"
  | PDict "(string \<times> pyval) list"

text \<open>
  A dictionary is the list of its items in insertion order, each key once.
  \<^verbatim>\<open>dict_merge(a, b)\<close> changes its first argument in place and returns it; here it
  returns the new value. Values are trees: the dictionaries the script merges share
  no parts.
\<close>

fun dict_merge :: "pyval \<Rightarrow> pyval \<Rightarrow> pyval"
  and merge_items :: "(string \<times> pyval) list \<Rightarrow> (string \<times> pyval) list \<Rightarrow> (string \<times> pyval) list"
where
  "dict_merge (PDict a) (PDict b) = PDict (merge_items a b)"
| "dict_merge a b = b"
| "merge_items a [] = a"
| "merge_items a ((key, val) # b) =
     merge_items
       (case map_of a key of
          Some av \<Rightarrow> AList.update key (dict_merge av val) a
        | None \<Rightarrow> AList.update key val a)
       b"

fun wf_val :: "pyval \<Rightarrow> bool" where
  "wf_val (PDict d) = (distinct (map fst d) \<and> (\<forall>v \<in> snd ` set d. wf_val v))"
| "wf_val (PList xs) = (\<forall>v \<in> set xs. wf_val v)"
| "wf_val _ = True"

section \<open>The comment-field parser\<close>

text \<open>
  \<^verbatim>\<open>add_field(output, field, value)\<close>. The value is stripped first, whatever the
  field is; \<^verbatim>\<open>None\<close> has no \<^verbatim>\<open>strip\<close>.
\<close>

definition add_field ::
  "(string \<times> pyval) list \<Rightarrow> string option \<Rightarrow> string option \<Rightarrow> error + (string \<times> pyval) list"
where
  "add_field output field val =
     (case val of
        None \<Rightarrow> Inl AttributeError
      | Some raw \<Rightarrow>
          (let v = py_strip raw in
           case field of
             None \<Rightarrow> Inr output
           | Some fld \<Rightarrow>
               if fld = ''name'' \<or> fld = ''description'' then
                 (if map_of output fld = None then Inr (AList.update fld (PStr v) output)
                  else Inr output)
               else
                 (let fld' = (if fld = ''note'' then ''notes'' else fld);
                      output' = (if map_of output fld' = None
                                 then AList.update fld' (PList []) output else output)
                  in case map_of output' fld' of
                       Some (PList xs) \<Rightarrow> Inr (AList.update fld' (PList (xs @ [PStr v])) output')
                     | _ \<Rightarrow> Inl TypeError)))"

definition field_marker :: "rx list" where
  "field_marker = [Bol, One (Lit CHR ''[''), Star AnyChar, One (Lit CHR '']''), Eol]"

text \<open>The loop state of \<^verbatim>\<open>parse_comments\<close>: output, field and value.\<close>

type_synonym comment_state = "(string \<times> pyval) list \<times> string option \<times> string option"

definition comment_line :: "comment_state \<Rightarrow> string \<Rightarrow> error + comment_state" where
  "comment_line st raw_line =
     (case st of (output, field, val) \<Rightarrow>
        (let line = py_strip raw_line in
         if re_search field_marker line \<noteq> None then
           (case add_field output field val of
              Inl e \<Rightarrow> Inl e
            | Inr output' \<Rightarrow> Inr (output', Some (butlast (tl line)), None))
         else
           (let v = (case val of None \<Rightarrow> [] | Some x \<Rightarrow> x);
                line' = (if length v > 0 \<and> last v = CHR ''.'' then CHR '' '' # line else line)
            in Inr (output, field, Some (v @ CHR '' '' # line')))))"

fun comment_lines :: "comment_state \<Rightarrow> string list \<Rightarrow> error + comment_state" where
  "comment_lines st [] = Inr st"
| "comment_lines st (l # ls) =
     (case comment_line st l of Inl e \<Rightarrow> Inl e | Inr st' \<Rightarrow> comment_lines st' ls)"

definition parse_comments :: "string \<Rightarrow> error + pyval" where
  "parse_comments comments =
     (case comment_lines ([], None, None) (split_nl comments) of
        Inl e \<Rightarrow> Inl e
      | Inr (output, field, val) \<Rightarrow>
          (case add_field output field val of
             Inl e \<Rightarrow> Inl e
           | Inr output' \<Rightarrow> Inr (PDict output')))"

section \<open>The map-file parser\<close>

text \<open>
  The open file is the list of the lines not yet read; \<^verbatim>\<open>next(f)\<close> takes the first
  one, and raises StopIteration when none is left.
\<close>

definition next_line :: "string list \<Rightarrow> error + (string \<times> string list)" where
  "next_line f = (case f of [] \<Rightarrow> Inl StopIteration | l # f' \<Rightarrow> Inr (l, f'))"

definition hex_pair :: "rx list" where
  "hex_pair = [Open] @ lits ''0x'' @ [Plus NonSpace, Close, Plus Space, Open] @ lits ''0x''
                @ [Plus NonSpace, Close]"

definition hex_then_token :: "rx list" where
  "hex_then_token = lits ''0x'' @ [Plus NonSpace, Plus Space, Open, Plus NonSpace, Close]"

definition hex_then_hex :: "rx list" where
  "hex_then_hex = lits ''0x'' @ [Plus NonSpace, Plus Space, Open] @ lits ''0x''
                    @ [Plus NonSpace, Close]"

definition hex_before :: "string \<Rightarrow> rx list" where
  "hex_before name = [Open] @ lits ''0x'' @ [Plus NonSpace, Close, Plus Space] @ lits name
                       @ [One (Lit NL)]"

definition kbfun_trigger :: "rx list" where
  "kbfun_trigger = [Bol, Star Space] @ lits ''.text.kbfun_''"

definition layout_trigger :: "rx list" where
  "layout_trigger = [Bol, Star Space] @ lits ''.progmem.data'' @ [Star AnyChar] @ lits ''layout''"

definition mapfile_parse_keyboard_function ::
  "string list \<Rightarrow> string \<Rightarrow> error + (pyval \<times> string list)"
where
  "mapfile_parse_keyboard_function f line =
     (case next_line f of Inl e \<Rightarrow> Inl e | Inr (l1, f1) \<Rightarrow>
     (case re_search hex_pair l1 of None \<Rightarrow> Inl AttributeError | Some m1 \<Rightarrow>
     (case group l1 m1 1 of Inl e \<Rightarrow> Inl e | Inr g1 \<Rightarrow>
     (case py_int16 g1 of Inl e \<Rightarrow> Inl e | Inr position \<Rightarrow>
     (case group l1 m1 2 of Inl e \<Rightarrow> Inl e | Inr g2 \<Rightarrow>
     (case py_int16 g2 of Inl e \<Rightarrow> Inl e | Inr len \<Rightarrow>
     (case next_line f1 of Inl e \<Rightarrow> Inl e | Inr (l2, f2) \<Rightarrow>
     (case search_group hex_then_token l2 1 of Inl e \<Rightarrow> Inl e | Inr name \<Rightarrow>
        Inr (PDict [(''keyboard-functions'',
               PDict [(name, PDict [(''position'', PInt position), (''length'', PInt len)])])],
             f2)))))))))"

definition parse_layout_matrices ::
  "string list \<Rightarrow> string \<Rightarrow> error + (pyval \<times> string list)"
where
  "parse_layout_matrices f line =
     (case search_group hex_then_hex line 1 of Inl e \<Rightarrow> Inl e | Inr tok \<Rightarrow>
     (case py_int16 tok of Inl e \<Rightarrow> Inl e | Inr total_length \<Rightarrow>
     (case int_truediv total_length 5 of Inl e \<Rightarrow> Inl e | Inr base_length \<Rightarrow>
     (case next_line f of Inl e \<Rightarrow> Inl e | Inr (l1, f1) \<Rightarrow>
     (case next_line f1 of Inl e \<Rightarrow> Inl e | Inr (l2, f2) \<Rightarrow>
     (case next_line f2 of Inl e \<Rightarrow> Inl e | Inr (l3, f3) \<Rightarrow>
     (case search_group (hex_before ''_kb_layout'') (l1 @ l2 @ l3) 1 of
        Inl e \<Rightarrow> Inl e | Inr t1 \<Rightarrow>
     (case search_group (hex_before ''_kb_layout_press'') (l1 @ l2 @ l3) 1 of
        Inl e \<Rightarrow> Inl e | Inr t2 \<Rightarrow>
     (case search_group (hex_before ''_kb_layout_release'') (l1 @ l2 @ l3) 1 of
        Inl e \<Rightarrow> Inl e | Inr t3 \<Rightarrow>
     (case py_int16 t1 of Inl e \<Rightarrow> Inl e | Inr layout_position \<Rightarrow>
     (case py_int16 t2 of Inl e \<Rightarrow> Inl e | Inr layout_press_position \<Rightarrow>
     (case py_int16 t3 of Inl e \<Rightarrow> Inl e | Inr layout_release_position \<Rightarrow>
        (if \<not> (layout_position \<noteq> 0 \<and> layout_press_position \<noteq> 0
                 \<and> layout_release_position \<noteq> 0)
         then Inl (Exception ''parse_mapfile: not all layout matrices were found'')
         else
           Inr (PDict [(''layout-matrices'', PDict [
                  (''_kb_layout'', PDict [
                     (''position'', PInt layout_position),
                     (''length'', PInt base_length)]),
                  (''_kb_layout_press'', PDict [
                     (''position'', PInt layout_press_position),
                     (''length'', PInt (base_length * 2))]),
                  (''_kb_layout_release'', PDict [
                     (''position'', PInt layout_release_position),
                     (''length'', PInt (base_length * 2))])])],
                f3))))))))))))))"

lemma mapfile_parse_keyboard_function_rest:
  "mapfile_parse_keyboard_function f line = Inr (d, f') \<Longrightarrow> length f' \<le> length f"
  by (auto simp: mapfile_parse_keyboard_function_def next_line_def
           split: list.splits sum.splits option.splits)

lemma parse_layout_matrices_rest:
  "parse_layout_matrices f line = Inr (d, f') \<Longrightarrow> length f' \<le> length f"
  by (auto simp: parse_layout_matrices_def next_line_def Let_def
           split: list.splits sum.splits option.splits if_splits)

function mapfile_loop :: "pyval \<Rightarrow> string list \<Rightarrow> error + pyval" where
  "mapfile_loop output [] = Inr output"
| "mapfile_loop output (line # f) =
     (if re_search kbfun_trigger line \<noteq> None then
        (case mapfile_parse_keyboard_function f line of
           Inl e \<Rightarrow> Inl e
         | Inr (d, f') \<Rightarrow> mapfile_loop (dict_merge output d) f')
      else if re_search layout_trigger line \<noteq> None then
        (case parse_layout_matrices f line of
           Inl e \<Rightarrow> Inl e
         | Inr (d, f') \<Rightarrow> mapfile_loop (dict_merge output d) f')
      else mapfile_loop output f)"
  by pat_completeness auto
termination
  by (relation "measure (\<lambda>(output, f). length f)")
     (auto dest: mapfile_parse_keyboard_function_rest parse_layout_matrices_rest)

text \<open>
  \<^verbatim>\<open>parse_mapfile\<close> on the lines of an existing map file, as iterating over the open
  file gives them (each with its newline).
\<close>

definition parse_mapfile :: "string list \<Rightarrow> error + pyval" where
  "parse_mapfile f = mapfile_loop (PDict []) f"

section \<open>The source scanner\<close>

fun read_comments_loop :: "string \<Rightarrow> string \<Rightarrow> string list \<Rightarrow> error + (string \<times> string list)" where
  "read_comments_loop comments line [] =
     (if py_strip line \<noteq> ''*/'' then Inl StopIteration else Inr (comments, []))"
| "read_comments_loop comments line (l # f) =
     (if py_strip line \<noteq> ''*/''
      then read_comments_loop (comments @ py_strip (drop 2 line) @ [NL]) l f
      else Inr (comments, l # f))"

definition read_comments :: "string list \<Rightarrow> string \<Rightarrow> error + (string \<times> string list)" where
  "read_comments f line = read_comments_loop [] line f"

definition kbfun_decl :: "rx list" where
  "kbfun_decl = lits ''void'' @ [Plus Space, Open] @ lits ''kbfun_'' @ [Plus NonSpace, Close,
                  Star Space] @ lits ''(void)''"

definition source_parse_keyboard_function :: "string \<Rightarrow> string \<Rightarrow> error + pyval" where
  "source_parse_keyboard_function line comments =
     (case search_group kbfun_decl line 1 of Inl e \<Rightarrow> Inl e | Inr name \<Rightarrow>
     (case parse_comments comments of Inl e \<Rightarrow> Inl e | Inr c \<Rightarrow>
        Inr (PDict [(''keyboard-functions'', PDict [(name, PDict [(''comments'', c)])])])))"

lemma read_comments_loop_rest:
  "read_comments_loop c line f = Inr (c', f') \<Longrightarrow> length f' \<le> length f"
  by (induction f arbitrary: c line) (fastforce split: if_splits)+

lemma read_comments_rest:
  "read_comments f line = Inr (c', f') \<Longrightarrow> length f' \<le> length f"
  unfolding read_comments_def by (rule read_comments_loop_rest)

text \<open>
  The scan of one open file: the state is the most recently read comment block and
  the output so far.
\<close>

function scan_lines :: "string \<Rightarrow> pyval \<Rightarrow> string list \<Rightarrow> error + (string \<times> pyval)" where
  "scan_lines comments output [] = Inr (comments, output)"
| "scan_lines comments output (line # f) =
     (if py_strip line = ''/*'' then
        (case read_comments f line of
           Inl e \<Rightarrow> Inl e
         | Inr (comments', f') \<Rightarrow> scan_lines comments' output f')
      else if re_search kbfun_decl line \<noteq> None then
        (case source_parse_keyboard_function line comments of
           Inl e \<Rightarrow> Inl e
         | Inr d \<Rightarrow> scan_lines comments (dict_merge output d) f)
      else scan_lines comments output f)"
  by pat_completeness auto
termination
  by (relation "measure (\<lambda>(comments, output, f). length f)")
     (auto dest: read_comments_rest)

text \<open>
  \<^verbatim>\<open>parse_source_code\<close> on the files of an existing source directory, in the order
  \<^verbatim>\<open>os.walk\<close> gives them: each file is its name and its lines.
\<close>

fun source_files_loop :: "pyval \<Rightarrow> (string \<times> string list) list \<Rightarrow> error + pyval" where
  "source_files_loop output [] = Inr output"
| "source_files_loop output ((file_name, f) # files) =
     (if drop (length file_name - 2) file_name \<noteq> ''.c'' then source_files_loop output files
      else
        (case scan_lines [] output f of
           Inl e \<Rightarrow> Inl e
         | Inr (comments, output') \<Rightarrow> source_files_loop output' files))"

definition parse_source_code :: "(string \<times> string list) list \<Rightarrow> error + pyval" where
  "parse_source_code files = source_files_loop (PDict []) files"

section \<open>Derived information\<close>

text \<open>\<^verbatim>\<open>d[key]\<close> for a string key.\<close>

definition subscript :: "pyval \<Rightarrow> string \<Rightarrow> error + pyval" where
  "subscript d key =
     (case d of
        PDict items \<Rightarrow> (case map_of items key of None \<Rightarrow> Inl KeyError | Some v \<Rightarrow> Inr v)
      | _ \<Rightarrow> Inl TypeError)"

definition gen_derived :: "pyval \<Rightarrow> error + pyval" where
  "gen_derived data =
     (case subscript data ''layout-matrices'' of Inl e \<Rightarrow> Inl e | Inr lm \<Rightarrow>
     (case subscript lm ''_kb_layout'' of Inl e \<Rightarrow> Inl e | Inr kl \<Rightarrow>
     (case subscript kl ''length'' of Inl e \<Rightarrow> Inl e | Inr len \<Rightarrow>
     (case len of
        PInt n \<Rightarrow>
          (case int_truediv n (6 * 14) of
             Inl e \<Rightarrow> Inl e
           | Inr layers \<Rightarrow>
               Inr (PDict [(''miscellaneous'', PDict [(''number-of-layers'', PInt layers)])]))
      | _ \<Rightarrow> Inl TypeError))))"

section \<open>Notions used in the statements\<close>

definition dict_keys :: "pyval \<Rightarrow> string set" where
  "dict_keys d = (case d of PDict items \<Rightarrow> fst ` set items | _ \<Rightarrow> {})"

definition dict_lookup :: "pyval \<Rightarrow> string \<Rightarrow> pyval option" where
  "dict_lookup d key = (case d of PDict items \<Rightarrow> map_of items key | _ \<Rightarrow> None)"

text \<open>The text \<^verbatim>\<open>read_comments\<close> builds from the lines of a block.\<close>

definition block_text :: "string list \<Rightarrow> string" where
  "block_text ls = concat (map (\<lambda>l. py_strip (drop 2 l) @ [NL]) ls)"

text \<open>
  A line of the block that follows the layout trigger: spaces, a token that starts
  with \<^verbatim>\<open>0x\<close>, spaces, a name, the newline.
\<close>

definition entry_line :: "string \<Rightarrow> string \<Rightarrow> string \<Rightarrow> string \<Rightarrow> string" where
  "entry_line w t s name = w @ ''0x'' @ t @ s @ name @ [NL]"

definition entry_ok :: "string \<Rightarrow> string \<Rightarrow> string \<Rightarrow> bool" where
  "entry_ok w t s = (list_all is_space w \<and> t \<noteq> [] \<and> list_all (\<lambda>c. \<not> is_space c) t
                     \<and> s \<noteq> [] \<and> list_all is_space s)"

text \<open>The search for \<open>name\<close> cannot stop in a line that ends with \<open>other\<close>.\<close>

definition misses :: "string \<Rightarrow> string \<Rightarrow> bool" where
  "misses name other = (other \<noteq> [] \<and> \<not> is_space (hd other) \<and> CHR ''0'' \<notin> set other
     \<and> (\<forall>pos marks y. rx_match (lits name @ [One (Lit NL)]) pos (other @ NL # y) marks = None))"

text \<open>
  Every section has a content line: no marker line comes first, directly after another
  marker line, or last. The flag says that the line before was a marker (or that no
  line was read yet).
\<close>

fun sections_filled :: "bool \<Rightarrow> string list \<Rightarrow> bool" where
  "sections_filled after_marker [] = (\<not> after_marker)"
| "sections_filled after_marker (l # ls) =
     (if re_search field_marker (py_strip l) \<noteq> None
      then \<not> after_marker \<and> sections_filled True ls
      else sections_filled False ls)"

text \<open>What \<^verbatim>\<open>add_field\<close> puts into the output: strings under the two special names, lists elsewhere.\<close>

definition shaped :: "(string \<times> pyval) list \<Rightarrow> bool" where
  "shaped output = (\<forall>k v. map_of output k = Some v \<longrightarrow>
     (if k = ''name'' \<or> k = ''description'' then \<exists>s. v = PStr s else \<exists>xs. v = PList xs))"

section \<open>Properties of the merge\<close>

lemma update_absent_append:
  "k \<notin> fst ` set al \<Longrightarrow> AList.update k v al = al @ [(k, v)]"
  by (induction al) auto

lemma update_present_same:
  "map_of al k = Some v \<Longrightarrow> AList.update k v al = al"
  by (induction al) (auto split: if_splits)

lemma merge_step_keys:
  "fst ` set (case map_of a k of Some av \<Rightarrow> AList.update k (f av) a | None \<Rightarrow> AList.update k v a)
     = insert k (fst ` set a)"
  by (cases "map_of a k") (simp_all add: dom_update)

lemma merge_items_keys:
  "fst ` set (merge_items a b) = fst ` set a \<union> fst ` set b"
proof (induction b arbitrary: a)
  case Nil
  show ?case by simp
next
  case (Cons p b)
  obtain k v where p: "p = (k, v)" by (cases p)
  show ?case
    unfolding p merge_items.simps Cons.IH merge_step_keys by auto
qed

lemma merge_step_other:
  "k' \<noteq> k \<Longrightarrow>
   map_of (case map_of a k of Some av \<Rightarrow> AList.update k (f av) a | None \<Rightarrow> AList.update k v a) k'
     = map_of a k'"
  by (cases "map_of a k") (simp_all add: update_conv')

lemma merge_step_same:
  "map_of (case map_of a k of Some av \<Rightarrow> AList.update k (f av) a | None \<Rightarrow> AList.update k v a) k
     = Some (case map_of a k of Some av \<Rightarrow> f av | None \<Rightarrow> v)"
  by (cases "map_of a k") (simp_all add: update_conv')

lemma merge_items_untouched:
  "k \<notin> fst ` set b \<Longrightarrow> map_of (merge_items a b) k = map_of a k"
proof (induction b arbitrary: a)
  case Nil
  show ?case by simp
next
  case (Cons p b)
  obtain k' v' where p: "p = (k', v')" by (cases p)
  from Cons.prems p have ne: "k \<noteq> k'" and nin: "k \<notin> fst ` set b" by auto
  show ?case
    unfolding p merge_items.simps Cons.IH[OF nin] using ne by (rule merge_step_other)
qed

lemma merge_items_touched:
  "distinct (map fst b) \<Longrightarrow> (k, v) \<in> set b \<Longrightarrow>
   map_of (merge_items a b) k
     = Some (case map_of a k of Some av \<Rightarrow> dict_merge av v | None \<Rightarrow> v)"
proof (induction b arbitrary: a)
  case Nil
  then show ?case by simp
next
  case (Cons p b)
  obtain k' v' where p: "p = (k', v')" by (cases p)
  let ?a' = "case map_of a k' of Some av \<Rightarrow> AList.update k' (dict_merge av v') a
             | None \<Rightarrow> AList.update k' v' a"
  from Cons.prems p have d: "distinct (map fst b)" and nin: "k' \<notin> fst ` set b" by auto
  show ?case
  proof (cases "(k, v) = (k', v')")
    case True
    then have kk: "k = k'" and vv: "v = v'" by simp_all
    have "map_of (merge_items ?a' b) k' = map_of ?a' k'"
      using nin by (rule merge_items_untouched)
    also have "\<dots> = Some (case map_of a k' of Some av \<Rightarrow> dict_merge av v' | None \<Rightarrow> v')"
      by (rule merge_step_same)
    finally show ?thesis unfolding p merge_items.simps kk vv .
  next
    case False
    with Cons.prems p have mem: "(k, v) \<in> set b" by auto
    with nin have ne: "k \<noteq> k'" by force
    have "map_of (merge_items ?a' b) k
            = Some (case map_of ?a' k of Some av \<Rightarrow> dict_merge av v | None \<Rightarrow> v)"
      by (rule Cons.IH[OF d mem])
    then show ?thesis unfolding p merge_items.simps
      by (simp add: merge_step_other[OF ne])
  qed
qed

lemma merge_items_absorbed:
  "(\<And>k v. (k, v) \<in> set b \<Longrightarrow> \<exists>r. map_of R k = Some r \<and> dict_merge r v = r) \<Longrightarrow>
   merge_items R b = R"
proof (induction b)
  case Nil
  show ?case by simp
next
  case (Cons p b)
  obtain k v where p: "p = (k, v)" by (cases p)
  from Cons.prems[of k v] p obtain r where r: "map_of R k = Some r" "dict_merge r v = r"
    by auto
  have "merge_items R b = R" by (rule Cons.IH) (auto intro: Cons.prems)
  then show ?case unfolding p using r by (simp add: update_present_same)
qed

lemma dict_merge_non_dict:
  "\<forall>items. b \<noteq> PDict items \<Longrightarrow> dict_merge a b = b"
  by (cases a; cases b) simp_all

lemma dict_merge_non_dict_left:
  "\<forall>items. a \<noteq> PDict items \<Longrightarrow> dict_merge a b = b"
  by (cases a; cases b) simp_all

lemma dict_merge_absorbs:
  "wf_val b \<Longrightarrow> dict_merge (dict_merge a b) b = dict_merge a b"
proof (induction b arbitrary: a)
  case (PDict bd)
  have dist: "distinct (map fst bd)" using PDict.prems by simp
  have wfv: "\<And>k v. (k, v) \<in> set bd \<Longrightarrow> wf_val v" using PDict.prems by force
  have IH: "\<And>k v x. (k, v) \<in> set bd \<Longrightarrow> dict_merge (dict_merge x v) v = dict_merge x v"
  proof -
    fix k v x assume m: "(k, v) \<in> set bd"
    then have "v \<in> Basic_BNFs.snds (k, v)" by simp
    from PDict.IH[OF m this wfv[OF m]] show "dict_merge (dict_merge x v) v = dict_merge x v" .
  qed
  have self: "\<And>k v. (k, v) \<in> set bd \<Longrightarrow> dict_merge v v = v"
  proof -
    fix k v assume m: "(k, v) \<in> set bd"
    from IH[OF m, of PNone] show "dict_merge v v = v" by simp
  qed
  have absorbed: "merge_items (merge_items ad bd) bd = merge_items ad bd" for ad
  proof (rule merge_items_absorbed)
    fix k v assume m: "(k, v) \<in> set bd"
    show "\<exists>r. map_of (merge_items ad bd) k = Some r \<and> dict_merge r v = r"
      using merge_items_touched[OF dist m, of ad] IH[OF m] self[OF m]
      by (cases "map_of ad k") auto
  qed
  have selfd: "merge_items bd bd = bd"
  proof (rule merge_items_absorbed)
    fix k v assume m: "(k, v) \<in> set bd"
    have "map_of bd k = Some v" using dist m by simp
    then show "\<exists>r. map_of bd k = Some r \<and> dict_merge r v = r" using self[OF m] by simp
  qed
  show ?case
  proof (cases a)
    case (PDict ad)
    then show ?thesis using absorbed by simp
  qed (simp_all add: selfd)
qed (simp_all add: dict_merge_non_dict)

lemma dict_merge_self:
  "wf_val a \<Longrightarrow> dict_merge a a = a"
  using dict_merge_absorbs[of a PNone] by (cases a) simp_all

lemma merge_items_disjoint:
  "distinct (map fst b) \<Longrightarrow> fst ` set a \<inter> fst ` set b = {} \<Longrightarrow> merge_items a b = a @ b"
proof (induction b arbitrary: a)
  case Nil
  show ?case by simp
next
  case (Cons p b)
  obtain k v where p: "p = (k, v)" by (cases p)
  from Cons.prems p have nin: "k \<notin> fst ` set a" and d: "distinct (map fst b)"
    and nb: "k \<notin> fst ` set b" and dj: "fst ` set a \<inter> fst ` set b = {}" by auto
  from nin have none: "map_of a k = None" by (simp add: map_of_eq_None_iff)
  have "merge_items (a @ [(k, v)]) b = (a @ [(k, v)]) @ b"
    by (rule Cons.IH[OF d]) (use nb dj in auto)
  then show ?case unfolding p by (simp add: none update_absent_append[OF nin])
qed

text \<open>
  C4: for a nested mapping \<open>b\<close> (a dictionary has each key once, at every level) and
  any value \<open>a\<close>, merging \<open>b\<close> into the result of merging \<open>b\<close> into \<open>a\<close> changes
  nothing, and merging \<open>b\<close> into itself gives \<open>b\<close> back.
\<close>

theorem dict_merge_idempotent:
  "wf_val b \<Longrightarrow> dict_merge (dict_merge a b) b = dict_merge a b \<and> dict_merge b b = b"
  by (simp add: dict_merge_absorbs dict_merge_self)

theorem dict_merge_idempotent_witness:
  "wf_val (PDict [(''k'', PDict [(''y'', PInt 2)]), (''j'', PStr ''s'')]) \<and>
   dict_merge
     (dict_merge (PDict [(''k'', PDict [(''x'', PInt 1)]), (''m'', PNone)])
        (PDict [(''k'', PDict [(''y'', PInt 2)]), (''j'', PStr ''s'')]))
     (PDict [(''k'', PDict [(''y'', PInt 2)]), (''j'', PStr ''s'')])
   = PDict [(''k'', PDict [(''x'', PInt 1), (''y'', PInt 2)]), (''m'', PNone), (''j'', PStr ''s'')] \<and>
   dict_merge (PDict [(''k'', PDict [(''y'', PInt 2)]), (''j'', PStr ''s'')])
     (PDict [(''k'', PDict [(''y'', PInt 2)]), (''j'', PStr ''s'')])
   = PDict [(''k'', PDict [(''y'', PInt 2)]), (''j'', PStr ''s'')]"
proof -
  have wf: "wf_val (PDict [(''k'', PDict [(''y'', PInt 2)]), (''j'', PStr ''s'')])"
    by simp
  have m: "dict_merge (PDict [(''k'', PDict [(''x'', PInt 1)]), (''m'', PNone)])
             (PDict [(''k'', PDict [(''y'', PInt 2)]), (''j'', PStr ''s'')])
           = PDict [(''k'', PDict [(''x'', PInt 1), (''y'', PInt 2)]), (''m'', PNone),
                    (''j'', PStr ''s'')]"
    by simp
  from dict_merge_idempotent[OF wf,
      of "PDict [(''k'', PDict [(''x'', PInt 1)]), (''m'', PNone)]"]
  show ?thesis using wf unfolding m by blast
qed

text \<open>
  C5: every key of either mapping is a key of the merge. When the key sets are
  disjoint, the merge is the entries of \<open>a\<close> followed by those of \<open>b\<close>: each key of
  \<open>a\<close> and each key of \<open>b\<close> is bound to the value it had.
\<close>

theorem dict_merge_keeps_keys:
  "dict_keys (dict_merge (PDict a) (PDict b)) = dict_keys (PDict a) \<union> dict_keys (PDict b) \<and>
   (distinct (map fst b) \<and> dict_keys (PDict a) \<inter> dict_keys (PDict b) = {} \<longrightarrow>
      dict_merge (PDict a) (PDict b) = PDict (a @ b) \<and>
      (\<forall>k v. dict_lookup (PDict a) k = Some v \<longrightarrow>
         dict_lookup (dict_merge (PDict a) (PDict b)) k = Some v) \<and>
      (\<forall>k v. dict_lookup (PDict b) k = Some v \<longrightarrow>
         dict_lookup (dict_merge (PDict a) (PDict b)) k = Some v))"
proof (intro conjI impI)
  show "dict_keys (dict_merge (PDict a) (PDict b)) = dict_keys (PDict a) \<union> dict_keys (PDict b)"
    by (simp add: dict_keys_def merge_items_keys)
next
  assume h: "distinct (map fst b) \<and> dict_keys (PDict a) \<inter> dict_keys (PDict b) = {}"
  then have d: "distinct (map fst b)" and dj: "fst ` set a \<inter> fst ` set b = {}"
    by (simp_all add: dict_keys_def)
  show eq: "dict_merge (PDict a) (PDict b) = PDict (a @ b)"
    by (simp add: merge_items_disjoint[OF d dj])
  show "\<forall>k v. dict_lookup (PDict a) k = Some v \<longrightarrow>
          dict_lookup (dict_merge (PDict a) (PDict b)) k = Some v"
    unfolding eq by (simp add: dict_lookup_def)
  show "\<forall>k v. dict_lookup (PDict b) k = Some v \<longrightarrow>
          dict_lookup (dict_merge (PDict a) (PDict b)) k = Some v"
  proof (intro allI impI)
    fix k v assume "dict_lookup (PDict b) k = Some v"
    then have b: "map_of b k = Some v" by (simp add: dict_lookup_def)
    then have "k \<in> fst ` set b" by (force dest: map_of_SomeD)
    with dj have "k \<notin> fst ` set a" by auto
    then have "map_of a k = None" by (simp add: map_of_eq_None_iff)
    with b show "dict_lookup (dict_merge (PDict a) (PDict b)) k = Some v"
      unfolding eq by (simp add: dict_lookup_def map_add_def)
  qed
qed

theorem dict_merge_keeps_keys_witness:
  "distinct (map fst [(''keyboard-functions'', PDict []), (''layout-matrices'', PInt 1)]) \<and>
   dict_keys (PDict [(''.meta-data'', PDict [(''version'', PInt 0)]), (''miscellaneous'', PNone)])
     \<inter> dict_keys (PDict [(''keyboard-functions'', PDict []), (''layout-matrices'', PInt 1)]) = {} \<and>
   dict_merge (PDict [(''.meta-data'', PDict [(''version'', PInt 0)]), (''miscellaneous'', PNone)])
     (PDict [(''keyboard-functions'', PDict []), (''layout-matrices'', PInt 1)])
   = PDict [(''.meta-data'', PDict [(''version'', PInt 0)]), (''miscellaneous'', PNone),
            (''keyboard-functions'', PDict []), (''layout-matrices'', PInt 1)]"
proof -
  have h: "distinct (map fst [(''keyboard-functions'', PDict []), (''layout-matrices'', PInt 1)]) \<and>
     dict_keys (PDict [(''.meta-data'', PDict [(''version'', PInt 0)]), (''miscellaneous'', PNone)])
       \<inter> dict_keys (PDict [(''keyboard-functions'', PDict []), (''layout-matrices'', PInt 1)]) = {}"
    by (simp add: dict_keys_def)
  from dict_merge_keeps_keys[of
      "[(''.meta-data'', PDict [(''version'', PInt 0)]), (''miscellaneous'', PNone)]"
      "[(''keyboard-functions'', PDict []), (''layout-matrices'', PInt 1)]"] h
  show ?thesis by simp
qed

section \<open>The comment-field parser on given texts\<close>

text \<open>
  C1: on the text that starts with the marker \<^verbatim>\<open>[name]\<close>, the first marker closes a
  section with no field and no value: \<^verbatim>\<open>add_field\<close> strips the value before it looks
  at the field, and the run ends in an AttributeError.
\<close>

theorem parse_comments_marker_first:
  "parse_comments (''[name]'' @ [NL] @ ''Foo'' @ [NL] @ ''[description]'' @ [NL] @ ''Bar.''
     @ [NL] @ ''Baz'' @ [NL] @ ''[note]'' @ [NL] @ ''One'' @ [NL] @ ''[note]'' @ [NL]
     @ ''Two'' @ [NL]) = Inl AttributeError"
  by code_simp

text \<open>
  The same text after one more line, as \<^verbatim>\<open>read_comments\<close> delivers it (the rest of the
  line that opens the comment comes first), gives the three fields, with two spaces
  after the period.
\<close>

lemma parse_comments_after_opening_line:
  "parse_comments ([NL] @ ''[name]'' @ [NL] @ ''Foo'' @ [NL] @ ''[description]'' @ [NL]
     @ ''Bar.'' @ [NL] @ ''Baz'' @ [NL] @ ''[note]'' @ [NL] @ ''One'' @ [NL] @ ''[note]''
     @ [NL] @ ''Two'' @ [NL])
   = Inr (PDict [(''name'', PStr ''Foo''), (''description'', PStr ''Bar.  Baz''),
                 (''notes'', PList [PStr ''One'', PStr ''Two''])])"
  by code_simp

lemma parse_comments_empty: "parse_comments [] = Inr (PDict [])"
  by code_simp

section \<open>The map-file parser on given files\<close>

text \<open>
  C6: the trigger line \<^verbatim>\<open>.text.kbfun_foo\<close> followed by the two lines
  \<^verbatim>\<open>0x00001000   0x00000020\<close> and \<^verbatim>\<open>0x00001000   kbfun_foo\<close> gives one keyboard
  function, \<^verbatim>\<open>kbfun_foo\<close>, at position 4096 with length 32; the
  same holds when each line ends with its newline, as the lines of a file do.
\<close>

theorem parse_mapfile_keyboard_function:
  "parse_mapfile [''.text.kbfun_foo'', ''0x00001000   0x00000020'', ''0x00001000   kbfun_foo'']
     = Inr (PDict [(''keyboard-functions'',
              PDict [(''kbfun_foo'', PDict [(''position'', PInt 4096), (''length'', PInt 32)])])])
   \<and> parse_mapfile [''.text.kbfun_foo'' @ [NL], ''0x00001000   0x00000020'' @ [NL],
        ''0x00001000   kbfun_foo'' @ [NL]]
     = Inr (PDict [(''keyboard-functions'',
              PDict [(''kbfun_foo'', PDict [(''position'', PInt 4096), (''length'', PInt 32)])])])"
  by code_simp

text \<open>
  C3: a layout trigger line followed by three lines of which none names
  \<^verbatim>\<open>_kb_layout_release\<close>. The search for that name finds nothing, and taking its
  group raises an AttributeError: the check that raises "not all layout matrices
  were found" is never reached.
\<close>

theorem parse_mapfile_missing_layout_name:
  "parse_mapfile
     ['' .progmem.data.layout  0x00001000   0x000004ec'' @ [NL],
      ''   0x00001000   _kb_layout'' @ [NL],
      ''   0x000010fc   _kb_layout_press'' @ [NL],
      ''   0x000012f4   _kb_other'' @ [NL]]
   = Inl AttributeError"
  by code_simp

section \<open>The layout matrices\<close>

lemma parse_layout_matrices_found:
  assumes "search_group hex_then_hex line 1 = Inr tok"
    and "py_int16 tok = Inr total_length"
    and "int_truediv total_length 5 = Inr base_length"
    and "search_group (hex_before ''_kb_layout'') (l1 @ l2 @ l3) 1 = Inr t1"
    and "search_group (hex_before ''_kb_layout_press'') (l1 @ l2 @ l3) 1 = Inr t2"
    and "search_group (hex_before ''_kb_layout_release'') (l1 @ l2 @ l3) 1 = Inr t3"
    and "py_int16 t1 = Inr p1" and "py_int16 t2 = Inr p2" and "py_int16 t3 = Inr p3"
  shows "parse_layout_matrices (l1 # l2 # l3 # f) line =
     (if p1 = 0 \<or> p2 = 0 \<or> p3 = 0
      then Inl (Exception ''parse_mapfile: not all layout matrices were found'')
      else Inr (PDict [(''layout-matrices'', PDict [
                  (''_kb_layout'', PDict [
                     (''position'', PInt p1), (''length'', PInt base_length)]),
                  (''_kb_layout_press'', PDict [
                     (''position'', PInt p2), (''length'', PInt (base_length * 2))]),
                  (''_kb_layout_release'', PDict [
                     (''position'', PInt p3), (''length'', PInt (base_length * 2))])])],
                f))"
  unfolding parse_layout_matrices_def next_line_def using assms by simp

text \<open>
  C10: when the trigger line gives its length and the three searches all find their
  names in the three lines that follow, a position that parses to zero makes
  \<^verbatim>\<open>parse_layout_matrices\<close> raise "not all layout matrices were found": the check
  tests the three integers.
\<close>

theorem layout_zero_position_raises:
  assumes "search_group hex_then_hex line 1 = Inr tok"
    and "py_int16 tok = Inr total_length"
    and "int_truediv total_length 5 = Inr base_length"
    and "search_group (hex_before ''_kb_layout'') (l1 @ l2 @ l3) 1 = Inr t1"
    and "search_group (hex_before ''_kb_layout_press'') (l1 @ l2 @ l3) 1 = Inr t2"
    and "search_group (hex_before ''_kb_layout_release'') (l1 @ l2 @ l3) 1 = Inr t3"
    and "py_int16 t1 = Inr p1" and "py_int16 t2 = Inr p2" and "py_int16 t3 = Inr p3"
    and "p1 = 0 \<or> p2 = 0 \<or> p3 = 0"
  shows "parse_layout_matrices (l1 # l2 # l3 # f) line
           = Inl (Exception ''parse_mapfile: not all layout matrices were found'')"
  using parse_layout_matrices_found[OF assms(1-9)] assms(10) by simp

theorem layout_zero_position_raises_witness:
  "search_group (hex_before ''_kb_layout'')
     (''   0x00000000   _kb_layout'' @ [NL] @ ''   0x000010fc   _kb_layout_press'' @ [NL]
        @ ''   0x000012f4   _kb_layout_release'' @ [NL]) 1 = Inr ''0x00000000''
   \<and> py_int16 ''0x00000000'' = Inr 0
   \<and> parse_layout_matrices
        [''   0x00000000   _kb_layout'' @ [NL], ''   0x000010fc   _kb_layout_press'' @ [NL],
         ''   0x000012f4   _kb_layout_release'' @ [NL]]
        ('' .progmem.data.layout  0x00001000   0x000004ec'' @ [NL])
      = Inl (Exception ''parse_mapfile: not all layout matrices were found'')"
proof -
  have a1: "search_group hex_then_hex
      ('' .progmem.data.layout  0x00001000   0x000004ec'' @ [NL]) 1 = Inr ''0x000004ec''"
    by code_simp
  have a2: "py_int16 ''0x000004ec'' = Inr 1260" by code_simp
  have a3: "int_truediv 1260 5 = Inr 252" by code_simp
  have a4: "search_group (hex_before ''_kb_layout'')
     ((''   0x00000000   _kb_layout'' @ [NL]) @ (''   0x000010fc   _kb_layout_press'' @ [NL])
        @ (''   0x000012f4   _kb_layout_release'' @ [NL])) 1 = Inr ''0x00000000''"
    by code_simp
  have a5: "search_group (hex_before ''_kb_layout_press'')
     ((''   0x00000000   _kb_layout'' @ [NL]) @ (''   0x000010fc   _kb_layout_press'' @ [NL])
        @ (''   0x000012f4   _kb_layout_release'' @ [NL])) 1 = Inr ''0x000010fc''"
    by code_simp
  have a6: "search_group (hex_before ''_kb_layout_release'')
     ((''   0x00000000   _kb_layout'' @ [NL]) @ (''   0x000010fc   _kb_layout_press'' @ [NL])
        @ (''   0x000012f4   _kb_layout_release'' @ [NL])) 1 = Inr ''0x000012f4''"
    by code_simp
  have a7: "py_int16 ''0x00000000'' = Inr 0" by code_simp
  have a8: "py_int16 ''0x000010fc'' = Inr 4348" by code_simp
  have a9: "py_int16 ''0x000012f4'' = Inr 4852" by code_simp
  have a10: "(0::int) = 0 \<or> (4348::int) = 0 \<or> (4852::int) = 0" by simp
  from layout_zero_position_raises[OF a1 a2 a3 a4 a5 a6 a7 a8 a9 a10, of "[]"] a4 a7
  show ?thesis by simp
qed

section \<open>Division through a float\<close>

text \<open>
  While the quotient is small enough for the float to keep more fraction bits than the
  divisor can produce, rounding never reaches the next integer, and
  \<^verbatim>\<open>int(a / b)\<close> is the integer quotient.
\<close>

lemma round_half_even_cases:
  "0 < y \<Longrightarrow> round_half_even x y = x div y \<or> (round_half_even x y = x div y + 1 \<and> y \<le> 2 * (x mod y))"
  by (auto simp: round_half_even_def Let_def)

lemma scaled_round_stays:
  fixes a b K :: int
  assumes a: "0 \<le> a" and b: "0 < b" and K: "0 < K" and bK: "b < 2 * K"
  shows "round_half_even (a * K) b div K = a div b"
proof -
  define n where "n = a div b"
  define r where "r = a mod b"
  have r: "0 \<le> r" "r < b" using b by (simp_all add: r_def)
  have a_eq: "a = n * b + r" by (simp add: n_def r_def)
  define d where "d = (a * K) div b"
  define e where "e = (a * K) mod b"
  have e: "0 \<le> e" "e < b" using b by (simp_all add: e_def)
  have de: "a * K = d * b + e" by (simp add: d_def e_def)
  have lo: "n * K \<le> d"
  proof -
    have "n * K * b \<le> a * K" using a_eq r K by (simp add: algebra_simps)
    then have "(n * K * b) div b \<le> (a * K) div b" by (rule zdiv_mono1) (rule b)
    then show ?thesis using b by (simp add: d_def)
  qed
  have hi: "d * b + e + K * (b - r) = (n + 1) * K * b"
    using de a_eq by (simp add: algebra_simps)
  have Kbr: "K \<le> K * (b - r)" using K r by simp
  have d_lt: "d < (n + 1) * K"
  proof (rule ccontr)
    assume "\<not> d < (n + 1) * K"
    then have "(n + 1) * K \<le> d" by simp
    then have "(n + 1) * K * b \<le> d * b" using b by (simp add: mult_right_mono)
    with hi e Kbr K show False by linarith
  qed
  have up: "d + 1 < (n + 1) * K" if big: "b \<le> 2 * e"
  proof (rule ccontr)
    assume "\<not> d + 1 < (n + 1) * K"
    with d_lt have d1: "d + 1 = (n + 1) * K" by simp
    have "(d + 1) * b = (n + 1) * K * b" unfolding d1 ..
    then have "d * b = (n + 1) * K * b - b" by (simp add: algebra_simps)
    with hi have "e = b - K * (b - r)" by simp
    with Kbr have "e \<le> b - K" by simp
    with big bK show False by simp
  qed
  have nn: "0 \<le> n" using a b by (simp add: n_def pos_imp_zdiv_nonneg_iff)
  have div_eq: "x div K = n" if "n * K \<le> x" "x < (n + 1) * K" for x
  proof (rule int_div_pos_eq[where r = "x - K * n"])
    show "x = K * n + (x - K * n)" by simp
    show "0 \<le> x - K * n" using that(1) by (simp add: mult.commute)
    show "x - K * n < K" using that(2) by (simp add: algebra_simps)
  qed
  from round_half_even_cases[OF b, of "a * K"]
  show ?thesis
  proof
    assume "round_half_even (a * K) b = a * K div b"
    then show ?thesis using div_eq[OF lo d_lt] by (simp add: d_def n_def)
  next
    assume h: "round_half_even (a * K) b = a * K div b + 1 \<and> b \<le> 2 * (a * K mod b)"
    then have "d + 1 < (n + 1) * K" using up by (simp add: e_def)
    moreover have "n * K \<le> d + 1" using lo by simp
    ultimately have "(d + 1) div K = n" by (rule div_eq[rotated])
    then show ?thesis using h by (simp add: d_def n_def)
  qed
qed

lemma int_truediv_exact:
  assumes a: "0 \<le> a" and b: "0 < b" and w: "w \<le> 52"
    and n: "a div b < 2 ^ w" and small: "b < 2 ^ (54 - w)"
  shows "int_truediv a b = Inr (a div b)"
proof -
  define n where "n = a div b"
  define k where "k = nat (53 - bitlen n)"
  have n0: "0 \<le> n" using a b by (simp add: n_def pos_imp_zdiv_nonneg_iff)
  have nw: "n < 2 ^ w" using assms(4) by (simp add: n_def)
  have "(2::int) ^ w \<le> 2 ^ 52" using w by (intro power_increasing) simp_all
  with nw have n52: "n < 2 ^ 52" by simp
  have bl: "bitlen n \<le> int w" using nw by (simp add: bitlen_le_iff_power)
  then have kw: "53 - w \<le> k" using bitlen_nonneg[of n] by (simp add: k_def)
  have "(2::int) ^ (54 - w) \<le> 2 ^ Suc k" using kw w by (intro power_increasing) simp_all
  with small have bK: "b < 2 * 2 ^ k" by simp
  have stay: "round_half_even (a * 2 ^ k) b div 2 ^ k = n"
    unfolding n_def by (rule scaled_round_stays[OF a b _ bK]) simp
  have "n < 2 ^ 1024"
  proof -
    have "(2::int) ^ 52 \<le> 2 ^ 1024" by (intro power_increasing) simp_all
    with n52 show ?thesis by simp
  qed
  then show ?thesis
    using a b n52 n0 stay
    by (simp add: int_truediv_def Let_def n_def[symmetric] k_def[symmetric] not_le)
qed

section \<open>The number of layers\<close>

text \<open>
  C8 as stated fails for a length of 84 * 2^47 + 83: the float quotient
  rounds up to the next integer, one more than the integer quotient.
\<close>

theorem gen_derived_rounds_up:
  "gen_derived (PDict [(''layout-matrices'', PDict [(''_kb_layout'',
      PDict [(''position'', PInt 4096), (''length'', PInt 11821949021847635)])])])
     = Inr (PDict [(''miscellaneous'', PDict [(''number-of-layers'', PInt 140737488355329)])])
   \<and> (11821949021847635::int) div 84 = 140737488355328"
  by code_simp

text \<open>
  C8, amended: for a length from 0 up to (not including) 84 * 2^47, the number of
  layers is the length integer-divided by 84.
\<close>

theorem gen_derived_number_of_layers:
  assumes "subscript data ''layout-matrices'' = Inr lm"
    and "subscript lm ''_kb_layout'' = Inr kl"
    and "subscript kl ''length'' = Inr (PInt n)"
    and "0 \<le> n" and "n < 84 * 2 ^ 47"
  shows "gen_derived data
           = Inr (PDict [(''miscellaneous'', PDict [(''number-of-layers'', PInt (n div 84))])])"
proof -
  have "n div 84 < 2 ^ 47" using assms(5) by simp
  then have "int_truediv n 84 = Inr (n div 84)"
    by (intro int_truediv_exact[where w = 47] assms(4)) simp_all
  then show ?thesis using assms(1-3) by (simp add: gen_derived_def)
qed

theorem gen_derived_number_of_layers_witness:
  "gen_derived (PDict [(''layout-matrices'', PDict [(''_kb_layout'',
      PDict [(''position'', PInt 4096), (''length'', PInt 252)])])])
     = Inr (PDict [(''miscellaneous'', PDict [(''number-of-layers'', PInt 3)])])"
proof -
  have a: "subscript (PDict [(''layout-matrices'', PDict [(''_kb_layout'',
      PDict [(''position'', PInt 4096), (''length'', PInt 252)])])]) ''layout-matrices''
      = Inr (PDict [(''_kb_layout'', PDict [(''position'', PInt 4096), (''length'', PInt 252)])])"
    by (simp add: subscript_def)
  have b: "subscript (PDict [(''_kb_layout'',
      PDict [(''position'', PInt 4096), (''length'', PInt 252)])]) ''_kb_layout''
      = Inr (PDict [(''position'', PInt 4096), (''length'', PInt 252)])"
    by (simp add: subscript_def)
  have c: "subscript (PDict [(''position'', PInt 4096), (''length'', PInt 252)]) ''length''
      = Inr (PInt 252)"
    by (simp add: subscript_def)
  from gen_derived_number_of_layers[OF a b c] show ?thesis by simp
qed

section \<open>Fields stored once, fields that accumulate\<close>

lemma add_field_keeps_name:
  assumes key: "key = ''name'' \<or> key = ''description''"
    and bound: "map_of output key = Some x"
    and ok: "add_field output field val = Inr output'"
  shows "map_of output' key = Some x"
proof (cases val)
  case None
  with ok show ?thesis by (simp add: add_field_def)
next
  case (Some raw)
  show ?thesis
  proof (cases field)
    case None
    with ok Some bound show ?thesis by (simp add: add_field_def)
  next
    case (Some fld)
    consider (same) "fld = key"
      | (other_special) "fld \<noteq> key" "fld = ''name'' \<or> fld = ''description''"
      | (plain) "fld \<noteq> ''name''" "fld \<noteq> ''description''"
      using key by auto
    then show ?thesis
    proof cases
      case same
      with ok \<open>val = Some raw\<close> Some key bound show ?thesis
        by (auto simp: add_field_def)
    next
      case other_special
      with ok \<open>val = Some raw\<close> Some bound show ?thesis
        by (auto simp: add_field_def update_conv' split: if_splits)
    next
      case plain
      define fld' where "fld' = (if fld = ''note'' then ''notes'' else fld)"
      have ne: "fld' \<noteq> key" using plain key by (auto simp: fld'_def)
      from ok \<open>val = Some raw\<close> Some plain bound ne show ?thesis
        by (auto simp: add_field_def Let_def fld'_def[symmetric] update_conv'
                 split: if_splits option.splits pyval.splits)
    qed
  qed
qed

lemma add_field_extends_list:
  assumes bound: "map_of output key = Some (PList xs)"
    and ok: "add_field output field val = Inr output'"
  shows "\<exists>ys. map_of output' key = Some (PList (xs @ ys))"
proof (cases val)
  case None
  with ok show ?thesis by (simp add: add_field_def)
next
  case (Some raw)
  note val = this
  show ?thesis
  proof (cases field)
    case None
    with ok val bound show ?thesis by (simp add: add_field_def)
  next
    case (Some fld)
    show ?thesis
    proof (cases "fld = ''name'' \<or> fld = ''description''")
      case True
      with ok val Some bound show ?thesis
        by (auto simp: add_field_def update_conv' split: if_splits)
    next
      case False
      define fld' where "fld' = (if fld = ''note'' then ''notes'' else fld)"
      from ok val Some False bound show ?thesis
        by (cases "fld' = key")
           (auto simp: add_field_def Let_def fld'_def[symmetric] update_conv'
                 split: if_splits option.splits pyval.splits)
    qed
  qed
qed

lemma comment_line_keeps_name:
  assumes key: "key = ''name'' \<or> key = ''description''"
    and bound: "map_of output key = Some x"
    and step: "comment_line (output, field, val) l = Inr (output', field', val')"
  shows "map_of output' key = Some x"
proof (cases "re_search field_marker (py_strip l) = None")
  case True
  with step bound show ?thesis by (simp add: comment_line_def Let_def)
next
  case False
  with step have "add_field output field val = Inr output'"
    by (auto simp: comment_line_def Let_def split: sum.splits)
  with key bound show ?thesis by (rule add_field_keeps_name)
qed

lemma comment_line_extends_list:
  assumes bound: "map_of output key = Some (PList xs)"
    and step: "comment_line (output, field, val) l = Inr (output', field', val')"
  shows "\<exists>ys. map_of output' key = Some (PList (xs @ ys))"
proof (cases "re_search field_marker (py_strip l) = None")
  case True
  with step bound show ?thesis by (simp add: comment_line_def Let_def)
next
  case False
  with step have "add_field output field val = Inr output'"
    by (auto simp: comment_line_def Let_def split: sum.splits)
  with bound show ?thesis by (rule add_field_extends_list)
qed

lemma comment_lines_keeps_name:
  assumes "key = ''name'' \<or> key = ''description''"
  shows "map_of output key = Some x \<Longrightarrow>
         comment_lines (output, field, val) ls = Inr (output', field', val') \<Longrightarrow>
         map_of output' key = Some x"
proof (induction ls arbitrary: "output" field val)
  case Nil
  then show ?case by simp
next
  case (Cons l ls)
  from Cons.prems(2) obtain o1 f1 v1 where
    step: "comment_line (output, field, val) l = Inr (o1, f1, v1)"
    and rest: "comment_lines (o1, f1, v1) ls = Inr (output', field', val')"
    by (auto split: sum.splits)
  from comment_line_keeps_name[OF assms Cons.prems(1) step]
  show ?case by (rule Cons.IH) (rule rest)
qed

lemma comment_lines_extends_list:
  "map_of output key = Some (PList xs) \<Longrightarrow>
   comment_lines (output, field, val) ls = Inr (output', field', val') \<Longrightarrow>
   \<exists>ys. map_of output' key = Some (PList (xs @ ys))"
proof (induction ls arbitrary: "output" field val xs)
  case Nil
  then show ?case by simp
next
  case (Cons l ls)
  from Cons.prems(2) obtain o1 f1 v1 where
    step: "comment_line (output, field, val) l = Inr (o1, f1, v1)"
    and rest: "comment_lines (o1, f1, v1) ls = Inr (output', field', val')"
    by (auto split: sum.splits)
  from comment_line_extends_list[OF Cons.prems(1) step]
  obtain ys where "map_of o1 key = Some (PList (xs @ ys))" by blast
  from Cons.IH[OF this rest] show ?case by auto
qed

lemma comment_lines_append:
  "comment_lines st (xs @ ys) =
     (case comment_lines st xs of Inl e \<Rightarrow> Inl e | Inr st' \<Rightarrow> comment_lines st' ys)"
  by (induction xs arbitrary: st) (auto split: sum.splits)

lemma split_nl_nonempty: "split_nl s \<noteq> []"
  by (induction s) (auto simp: Let_def)

lemma split_nl_append:
  "split_nl (t1 @ NL # t2) = split_nl t1 @ split_nl t2"
  by (induction t1) (auto simp: Let_def split_nl_nonempty)

lemma add_field_stores_once:
  assumes "fld = ''name'' \<or> fld = ''description''"
  shows "add_field output (Some fld) (Some v) =
           Inr (if map_of output fld = None then AList.update fld (PStr (py_strip v)) output
                else output)"
  using assms by (auto simp: add_field_def)

lemma add_field_appends:
  assumes "fld \<noteq> ''name''" and "fld \<noteq> ''description''"
  shows "add_field output (Some fld) (Some v) =
     (case map_of output (if fld = ''note'' then ''notes'' else fld) of
        None \<Rightarrow> Inr (AList.update (if fld = ''note'' then ''notes'' else fld)
                        (PList [PStr (py_strip v)]) output)
      | Some (PList xs) \<Rightarrow> Inr (AList.update (if fld = ''note'' then ''notes'' else fld)
                        (PList (xs @ [PStr (py_strip v)])) output)
      | Some _ \<Rightarrow> Inl TypeError)"
proof -
  define k where "k = (if fld = ''note'' then ''notes'' else fld)"
  have upd: "AList.update k b (AList.update k a output) = AList.update k b output" for a b
    by (induction "output") auto
  show ?thesis using assms
    unfolding k_def[symmetric]
    by (auto simp: add_field_def Let_def k_def[symmetric] update_conv' upd
             split: option.splits pyval.splits)
qed

lemma parse_comments_from_prefix:
  assumes pre: "comment_lines ([], None, None) (split_nl t1) = Inr (o1, f1, v1)"
    and all: "parse_comments (t1 @ NL # t2) = Inr d"
  obtains o2 f2 v2 final where
    "comment_lines (o1, f1, v1) (split_nl t2) = Inr (o2, f2, v2)"
    "add_field o2 f2 v2 = Inr final" "d = PDict final"
  using all pre
  by (auto simp: parse_comments_def split_nl_append comment_lines_append
           split: sum.splits)

lemma add_field_returns:
  assumes "shaped output"
  shows "\<exists>output'. add_field output field (Some v) = Inr output' \<and> shaped output'"
proof (cases field)
  case None
  with assms show ?thesis by (simp add: add_field_def)
next
  case (Some fld)
  show ?thesis
  proof (cases "fld = ''name'' \<or> fld = ''description''")
    case True
    with assms Some show ?thesis
      by (auto simp: add_field_def shaped_def update_conv')
  next
    case False
    define k where "k = (if fld = ''note'' then ''notes'' else fld)"
    have kn: "k \<noteq> ''name''" "k \<noteq> ''description''" using False by (auto simp: k_def)
    show ?thesis
    proof (cases "map_of output k")
      case None
      then show ?thesis using assms Some False kn
        by (auto simp: add_field_appends k_def[symmetric] shaped_def update_conv')
    next
      case (Some x)
      from assms Some
      have "if k = ''name'' \<or> k = ''description'' then \<exists>s. x = PStr s else \<exists>xs. x = PList xs"
        unfolding shaped_def by blast
      with kn obtain xs where "x = PList xs" by auto
      with Some show ?thesis using assms \<open>field = Some fld\<close> False kn
        by (auto simp: add_field_appends k_def[symmetric] shaped_def update_conv')
    qed
  qed
qed

lemma comment_lines_return:
  "shaped output \<Longrightarrow> sections_filled (val = None) ls \<Longrightarrow>
   \<exists>output' field' v'. comment_lines (output, field, val) ls = Inr (output', field', Some v')
      \<and> shaped output'"
proof (induction ls arbitrary: "output" field val)
  case Nil
  then show ?case by auto
next
  case (Cons l ls)
  show ?case
  proof (cases "re_search field_marker (py_strip l) = None")
    case True
    with Cons.prems have f: "sections_filled False ls" by simp
    define v where "v = (case val of None \<Rightarrow> [] | Some x \<Rightarrow> x)"
    define line' where "line' = (if length v > 0 \<and> last v = CHR ''.''
      then CHR '' '' # py_strip l else py_strip l)"
    have step: "comment_line (output, field, val) l = Inr (output, field, Some (v @ CHR '' '' # line'))"
      using True by (simp add: comment_line_def Let_def v_def line'_def)
    from Cons.IH[OF Cons.prems(1), of "Some (v @ CHR '' '' # line')" field] f
    show ?thesis by (simp add: step)
  next
    case False
    with Cons.prems obtain v where v: "val = Some v" and f: "sections_filled True ls"
      by (cases val) auto
    from add_field_returns[OF Cons.prems(1), of field v]
    obtain o1 where o1: "add_field output field (Some v) = Inr o1" "shaped o1" by blast
    have step: "comment_line (output, field, val) l
                  = Inr (o1, Some (butlast (tl (py_strip l))), None)"
      using False o1 v by (simp add: comment_line_def Let_def)
    from Cons.IH[OF o1(2), of None "Some (butlast (tl (py_strip l)))"] f
    show ?thesis by (simp add: step)
  qed
qed

lemma parse_comments_returns:
  assumes "sections_filled True (split_nl comments)"
  shows "\<exists>d. parse_comments comments = Inr (PDict d)"
proof -
  have "shaped []" by (simp add: shaped_def)
  from comment_lines_return[OF this, of None "split_nl comments" None] assms
  obtain o1 f1 v1 where r: "comment_lines ([], None, None) (split_nl comments) = Inr (o1, f1, Some v1)"
    and s: "shaped o1" by auto
  from add_field_returns[OF s, of f1 v1] obtain o2 where "add_field o1 f1 (Some v1) = Inr o2"
    by blast
  with r show ?thesis by (simp add: parse_comments_def)
qed

text \<open>
  C9: \<^verbatim>\<open>add_field\<close> stores a \<^verbatim>\<open>name\<close> or \<^verbatim>\<open>description\<close> only when the output has
  none yet, and leaves the output as it is otherwise. Once the lines read so far have
  stored one, the parsed text has that value whatever follows. Every other field
  (\<^verbatim>\<open>note\<close> under the key \<^verbatim>\<open>notes\<close>) appends its value to the list under its key, and
  a list the lines read so far have built is a prefix of the one in the result.
  A text in which every section has a content line is parsed without an error.
\<close>

theorem name_description_first_wins:
  "((fld = ''name'' \<or> fld = ''description'') \<longrightarrow>
      add_field output (Some fld) (Some v) =
        Inr (if map_of output fld = None then AList.update fld (PStr (py_strip v)) output
             else output))
   \<and> ((key = ''name'' \<or> key = ''description'') \<and>
        comment_lines ([], None, None) (split_nl t1) = Inr (o1, f1, v1) \<and>
        map_of o1 key = Some x \<and> parse_comments (t1 @ NL # t2) = Inr d
        \<longrightarrow> dict_lookup d key = Some x)
   \<and> (fld \<noteq> ''name'' \<and> fld \<noteq> ''description'' \<longrightarrow>
        add_field output (Some fld) (Some v) =
          (case map_of output (if fld = ''note'' then ''notes'' else fld) of
             None \<Rightarrow> Inr (AList.update (if fld = ''note'' then ''notes'' else fld)
                             (PList [PStr (py_strip v)]) output)
           | Some (PList xs) \<Rightarrow> Inr (AList.update (if fld = ''note'' then ''notes'' else fld)
                             (PList (xs @ [PStr (py_strip v)])) output)
           | Some _ \<Rightarrow> Inl TypeError))
   \<and> (comment_lines ([], None, None) (split_nl t1) = Inr (o1, f1, v1) \<and>
        map_of o1 key = Some (PList ys) \<and> parse_comments (t1 @ NL # t2) = Inr d
        \<longrightarrow> (\<exists>zs. dict_lookup d key = Some (PList (ys @ zs))))
   \<and> (sections_filled True (split_nl comments) \<longrightarrow>
        (\<exists>items. parse_comments comments = Inr (PDict items)))"
proof (intro conjI impI)
  assume "fld = ''name'' \<or> fld = ''description''"
  then show "add_field output (Some fld) (Some v) =
        Inr (if map_of output fld = None then AList.update fld (PStr (py_strip v)) output
             else output)"
    by (rule add_field_stores_once)
next
  assume h: "(key = ''name'' \<or> key = ''description'') \<and>
        comment_lines ([], None, None) (split_nl t1) = Inr (o1, f1, v1) \<and>
        map_of o1 key = Some x \<and> parse_comments (t1 @ NL # t2) = Inr d"
  then have key: "key = ''name'' \<or> key = ''description''"
    and pre: "comment_lines ([], None, None) (split_nl t1) = Inr (o1, f1, v1)"
    and bound: "map_of o1 key = Some x"
    and all: "parse_comments (t1 @ NL # t2) = Inr d" by simp_all
  from pre all obtain o2 f2 v2 final where
    r: "comment_lines (o1, f1, v1) (split_nl t2) = Inr (o2, f2, v2)"
       "add_field o2 f2 v2 = Inr final" "d = PDict final"
    by (rule parse_comments_from_prefix)
  from comment_lines_keeps_name[OF key bound r(1)] have "map_of o2 key = Some x" .
  from add_field_keeps_name[OF key this r(2)] show "dict_lookup d key = Some x"
    by (simp add: r(3) dict_lookup_def)
next
  assume "fld \<noteq> ''name'' \<and> fld \<noteq> ''description''"
  then show "add_field output (Some fld) (Some v) =
          (case map_of output (if fld = ''note'' then ''notes'' else fld) of
             None \<Rightarrow> Inr (AList.update (if fld = ''note'' then ''notes'' else fld)
                             (PList [PStr (py_strip v)]) output)
           | Some (PList xs) \<Rightarrow> Inr (AList.update (if fld = ''note'' then ''notes'' else fld)
                             (PList (xs @ [PStr (py_strip v)])) output)
           | Some _ \<Rightarrow> Inl TypeError)"
    by (intro add_field_appends) simp_all
next
  assume h: "comment_lines ([], None, None) (split_nl t1) = Inr (o1, f1, v1) \<and>
        map_of o1 key = Some (PList ys) \<and> parse_comments (t1 @ NL # t2) = Inr d"
  then have pre: "comment_lines ([], None, None) (split_nl t1) = Inr (o1, f1, v1)"
    and bound: "map_of o1 key = Some (PList ys)"
    and all: "parse_comments (t1 @ NL # t2) = Inr d" by simp_all
  from pre all obtain o2 f2 v2 final where
    r: "comment_lines (o1, f1, v1) (split_nl t2) = Inr (o2, f2, v2)"
       "add_field o2 f2 v2 = Inr final" "d = PDict final"
    by (rule parse_comments_from_prefix)
  from comment_lines_extends_list[OF bound r(1)]
  obtain z1 where "map_of o2 key = Some (PList (ys @ z1))" by blast
  from add_field_extends_list[OF this r(2)]
  obtain z2 where "map_of final key = Some (PList ((ys @ z1) @ z2))" by blast
  then show "\<exists>zs. dict_lookup d key = Some (PList (ys @ zs))"
    by (simp add: r(3) dict_lookup_def)
next
  assume "sections_filled True (split_nl comments)"
  then show "\<exists>items. parse_comments comments = Inr (PDict items)"
    by (rule parse_comments_returns)
qed

theorem name_description_first_wins_witness:
  "comment_lines ([], None, None)
     (split_nl ([NL] @ ''[name]'' @ [NL] @ ''A'' @ [NL] @ ''[note]'' @ [NL] @ ''x'' @ [NL]
        @ ''[tag]''))
     = Inr ([(''name'', PStr ''A''), (''notes'', PList [PStr ''x''])], Some ''tag'', None)
   \<and> parse_comments
       (([NL] @ ''[name]'' @ [NL] @ ''A'' @ [NL] @ ''[note]'' @ [NL] @ ''x'' @ [NL] @ ''[tag]'')
        @ NL # (''t'' @ [NL] @ ''[name]'' @ [NL] @ ''B'' @ [NL] @ ''[note]'' @ [NL] @ ''y''
        @ [NL] @ ''[tag]'' @ [NL] @ ''u'' @ [NL]))
     = Inr (PDict [(''name'', PStr ''A''), (''notes'', PList [PStr ''x'', PStr ''y'']),
                   (''tag'', PList [PStr ''t'', PStr ''u''])])
   \<and> dict_lookup
        (PDict [(''name'', PStr ''A''), (''notes'', PList [PStr ''x'', PStr ''y'']),
                (''tag'', PList [PStr ''t'', PStr ''u''])]) ''name'' = Some (PStr ''A'')
   \<and> sections_filled True (split_nl
       (([NL] @ ''[name]'' @ [NL] @ ''A'' @ [NL] @ ''[note]'' @ [NL] @ ''x'' @ [NL] @ ''[tag]'')
        @ NL # (''t'' @ [NL] @ ''[name]'' @ [NL] @ ''B'' @ [NL] @ ''[note]'' @ [NL] @ ''y''
        @ [NL] @ ''[tag]'' @ [NL] @ ''u'' @ [NL])))"
proof -
  have filled: "sections_filled True (split_nl
       (([NL] @ ''[name]'' @ [NL] @ ''A'' @ [NL] @ ''[note]'' @ [NL] @ ''x'' @ [NL] @ ''[tag]'')
        @ NL # (''t'' @ [NL] @ ''[name]'' @ [NL] @ ''B'' @ [NL] @ ''[note]'' @ [NL] @ ''y''
        @ [NL] @ ''[tag]'' @ [NL] @ ''u'' @ [NL])))"
    by code_simp
  have pre: "comment_lines ([], None, None)
     (split_nl ([NL] @ ''[name]'' @ [NL] @ ''A'' @ [NL] @ ''[note]'' @ [NL] @ ''x'' @ [NL]
        @ ''[tag]''))
     = Inr ([(''name'', PStr ''A''), (''notes'', PList [PStr ''x''])], Some ''tag'', None)"
    by code_simp
  have all: "parse_comments
       (([NL] @ ''[name]'' @ [NL] @ ''A'' @ [NL] @ ''[note]'' @ [NL] @ ''x'' @ [NL] @ ''[tag]'')
        @ NL # (''t'' @ [NL] @ ''[name]'' @ [NL] @ ''B'' @ [NL] @ ''[note]'' @ [NL] @ ''y''
        @ [NL] @ ''[tag]'' @ [NL] @ ''u'' @ [NL]))
     = Inr (PDict [(''name'', PStr ''A''), (''notes'', PList [PStr ''x'', PStr ''y'']),
                   (''tag'', PList [PStr ''t'', PStr ''u''])])"
    by code_simp
  have bound: "map_of [(''name'', PStr ''A''), (''notes'', PList [PStr ''x''])] ''name''
                 = Some (PStr ''A'')"
    by simp
  from name_description_first_wins[of "''name''" "[]" "''v''" "''name''" _ _ _ _ "PStr ''A''"]
    pre all bound
  have "dict_lookup
        (PDict [(''name'', PStr ''A''), (''notes'', PList [PStr ''x'', PStr ''y'']),
                (''tag'', PList [PStr ''t'', PStr ''u''])]) ''name'' = Some (PStr ''A'')"
    by blast
  with pre all filled show ?thesis by blast
qed

section \<open>Searching the lines after the layout trigger\<close>

lemma first_some_all_None: "(\<forall>x \<in> set xs. x = None) \<Longrightarrow> first_some xs = None"
  by (induction xs) auto

lemma first_some_greedy:
  assumes "lo \<le> N" and "\<And>n. lo \<le> n \<Longrightarrow> n < N \<Longrightarrow> f n = None"
  shows "first_some (map f (greedy_counts lo N)) = f N"
proof -
  have split: "greedy_counts lo N = N # rev [lo ..< N]"
    using assms(1) by (simp add: greedy_counts_def)
  have "first_some (map f (rev [lo ..< N])) = None"
    by (rule first_some_all_None) (auto simp: assms(2))
  then show ?thesis unfolding split by (simp split: option.splits)
qed

lemma greedy_counts_empty: "N < lo \<Longrightarrow> greedy_counts lo N = []"
  by (simp add: greedy_counts_def)

lemma takeWhile_run:
  assumes "\<forall>c \<in> set t. P c" and "rest = [] \<or> \<not> P (hd rest)"
  shows "takeWhile P (t @ rest) = t"
  using assms by (cases rest) (simp_all add: takeWhile_append2 takeWhile_tail)

lemma rx_match_lits:
  "rx_match (lits n @ r) pos (n @ x) marks = rx_match r (pos + length n) x marks"
  by (induction n arbitrary: pos) (simp_all add: lits_def)

text \<open>A run of spaces before a literal that is no space: the whole run is taken.\<close>

lemma rx_match_spaces_then_lit:
  assumes sp: "\<forall>c \<in> set s. is_space c" and c0: "\<not> is_space c0"
    and rest: "rest = [] \<or> \<not> is_space (hd rest)"
  shows "rx_match (Plus Space # One (Lit c0) # r) pos (s @ rest) marks =
           (if s = [] then None
            else rx_match (One (Lit c0) # r) (pos + length s) rest marks)"
proof (cases "s = []")
  case True
  have "takeWhile (cc_matches Space) rest = []"
    using rest by (cases rest) simp_all
  then show ?thesis using True by (simp add: greedy_counts_empty)
next
  case False
  have tw: "takeWhile (cc_matches Space) (s @ rest) = s"
    by (rule takeWhile_run) (use sp rest in auto)
  have "first_some (map (\<lambda>n. rx_match (One (Lit c0) # r) (pos + n) (drop n (s @ rest)) marks)
          (greedy_counts 1 (length s)))
        = rx_match (One (Lit c0) # r) (pos + length s) (drop (length s) (s @ rest)) marks"
  proof (rule first_some_greedy)
    show "1 \<le> length s" using False by (cases s) simp_all
  next
    fix n assume n: "1 \<le> n" "n < length s"
    then obtain c cs where d: "drop n s = c # cs" by (cases "drop n s") simp_all
    then have "c \<in> set s" by (metis in_set_dropD list.set_intros(1))
    with sp c0 have "c \<noteq> c0" by auto
    then show "rx_match (One (Lit c0) # r) (pos + n) (drop n (s @ rest)) marks = None"
      using n d by simp
  qed
  then show ?thesis using False by (simp add: tw)
qed

text \<open>A token before a run of spaces: the whole token is taken.\<close>

lemma rx_match_token_then_spaces:
  assumes ns: "\<forall>c \<in> set t. \<not> is_space c"
    and rest: "rest = [] \<or> is_space (hd rest)"
  shows "rx_match (Plus NonSpace # Close # Plus Space # r) pos (t @ rest) marks =
           (if t = [] then None
            else rx_match (Close # Plus Space # r) (pos + length t) rest marks)"
proof (cases "t = []")
  case True
  have "takeWhile (cc_matches NonSpace) rest = []"
    using rest by (cases rest) simp_all
  then show ?thesis using True by (simp add: greedy_counts_empty)
next
  case False
  have tw: "takeWhile (cc_matches NonSpace) (t @ rest) = t"
    by (rule takeWhile_run) (use ns rest in auto)
  have "first_some (map (\<lambda>n. rx_match (Close # Plus Space # r) (pos + n) (drop n (t @ rest)) marks)
          (greedy_counts 1 (length t)))
        = rx_match (Close # Plus Space # r) (pos + length t) (drop (length t) (t @ rest)) marks"
  proof (rule first_some_greedy)
    show "1 \<le> length t" using False by (cases t) simp_all
  next
    fix n assume n: "1 \<le> n" "n < length t"
    then obtain c cs where d: "drop n t = c # cs" by (cases "drop n t") simp_all
    then have "c \<in> set t" by (metis in_set_dropD list.set_intros(1))
    with ns have "\<not> is_space c" by auto
    then show "rx_match (Close # Plus Space # r) (pos + n) (drop n (t @ rest)) marks = None"
      using n d by (simp add: greedy_counts_empty)
  qed
  then show ?thesis using False by (simp add: tw)
qed

text \<open>The pattern \<^verbatim>\<open>(0x\S+)\s+NAME\n\<close> at a token that spaces follow.\<close>

lemma hex_before_unfold:
  "hex_before name = Open # One (Lit CHR ''0'') # One (Lit CHR ''x'') # Plus NonSpace # Close
      # Plus Space # (lits name @ [One (Lit NL)])"
  by (simp add: hex_before_def lits_def)

lemma hex_before_not_zero:
  "c \<noteq> CHR ''0'' \<Longrightarrow> rx_match (hex_before name) pos (c # x) marks = None"
  by (simp add: hex_before_unfold)

lemma hex_before_at_token:
  assumes ns: "\<forall>c \<in> set t. \<not> is_space c" and t: "t \<noteq> []"
    and sp: "\<forall>c \<in> set s. is_space c" and s: "s \<noteq> []"
    and name: "name = c0 # name'" and c0: "\<not> is_space c0"
    and rest: "rest = [] \<or> \<not> is_space (hd rest)"
  shows "rx_match (hex_before name) pos (''0x'' @ t @ s @ rest) marks =
           rx_match (lits name @ [One (Lit NL)]) (pos + 2 + length t + length s) rest
             ((pos + 2 + length t) # pos # marks)"
proof -
  have r1: "s @ rest = [] \<or> is_space (hd (s @ rest))" using s sp by (cases s) simp_all
  have l: "lits name @ [One (Lit NL)] = One (Lit c0) # (lits name' @ [One (Lit NL)])"
    by (simp add: name lits_def)
  have "rx_match (hex_before name) pos (''0x'' @ t @ s @ rest) marks
          = rx_match (Plus NonSpace # Close # Plus Space # (lits name @ [One (Lit NL)]))
              (pos + 2) (t @ (s @ rest)) (pos # marks)"
    unfolding hex_before_unfold by (simp del: rx_match.simps(3,4))
  also have "\<dots> = rx_match (Close # Plus Space # (lits name @ [One (Lit NL)]))
              (pos + 2 + length t) (s @ rest) (pos # marks)"
    using t by (simp add: rx_match_token_then_spaces[OF ns r1] del: rx_match.simps(3,4))
  also have "\<dots> = rx_match (Plus Space # One (Lit c0) # (lits name' @ [One (Lit NL)]))
              (pos + 2 + length t) (s @ rest) ((pos + 2 + length t) # pos # marks)"
    by (simp add: l del: rx_match.simps(3,4))
  also have "\<dots> = rx_match (One (Lit c0) # (lits name' @ [One (Lit NL)]))
              (pos + 2 + length t + length s) rest ((pos + 2 + length t) # pos # marks)"
    using s by (simp add: rx_match_spaces_then_lit[OF sp c0 rest] del: rx_match.simps(2,3,4))
  finally show ?thesis by (simp only: l)
qed

lemma hex_before_in_token:
  assumes ns: "\<forall>c \<in> set t. \<not> is_space c"
    and sp: "\<forall>c \<in> set s. is_space c" and s: "s \<noteq> []"
    and name: "name = c0 # name'" and c0: "\<not> is_space c0"
    and rest: "rest = [] \<or> \<not> is_space (hd rest)"
    and fail: "\<And>pos marks. rx_match (lits name @ [One (Lit NL)]) pos rest marks = None"
  shows "rx_match (hex_before name) pos (t @ s @ rest) marks = None"
proof -
  obtain d ds where sd: "s = d # ds" using s by (cases s) simp_all
  then have dsp: "is_space d" using sp by simp
  have dz: "d \<noteq> CHR ''0''" "d \<noteq> CHR ''x''" using dsp by (auto simp: is_space_def)
  show ?thesis
  proof (cases t)
    case Nil
    then show ?thesis using dz by (simp add: sd hex_before_not_zero)
  next
    case (Cons a t1)
    show ?thesis
    proof (cases "a = CHR ''0''")
      case False
      then show ?thesis by (simp add: Cons hex_before_not_zero)
    next
      case a: True
      show ?thesis
      proof (cases t1)
        case Nil
        then show ?thesis using dz by (simp add: Cons a sd hex_before_unfold)
      next
        case (Cons b t2)
        show ?thesis
        proof (cases "b = CHR ''x''")
          case False
          then show ?thesis by (simp add: \<open>t = a # t1\<close> Cons a hex_before_unfold)
        next
          case b: True
          have ns2: "\<forall>c \<in> set t2. \<not> is_space c" using ns \<open>t = a # t1\<close> Cons by simp
          show ?thesis
          proof (cases "t2 = []")
            case True
            have r1: "s @ rest = [] \<or> is_space (hd (s @ rest))" using sd dsp by simp
            have "rx_match (Plus NonSpace # Close # Plus Space # (lits name @ [One (Lit NL)]))
                    (pos + 2) ([] @ (s @ rest)) (pos # marks) = None"
              by (subst rx_match_token_then_spaces[OF _ r1]) simp_all
            then have "rx_match (hex_before name) pos (''0x'' @ [] @ s @ rest) marks = None"
              unfolding hex_before_unfold by (simp del: rx_match.simps(3,4))
            then show ?thesis by (simp add: \<open>t = a # t1\<close> Cons a b True)
          next
            case False
            from hex_before_at_token[OF ns2 False sp s name c0 rest, of pos marks]
            show ?thesis by (simp add: \<open>t = a # t1\<close> Cons a b fail)
          qed
        qed
      qed
    qed
  qed
qed

text \<open>How the search moves over the parts of a line.\<close>

lemma search_skip_no_zero:
  "\<forall>c \<in> set u. c \<noteq> CHR ''0'' \<Longrightarrow>
   search_from (hex_before name) pos (u @ x) = search_from (hex_before name) (pos + length u) x"
  by (induction u arbitrary: pos) (simp_all add: hex_before_not_zero)

lemma search_skip_token:
  assumes ns: "\<forall>c \<in> set t. \<not> is_space c"
    and sp: "\<forall>c \<in> set s. is_space c" and s: "s \<noteq> []"
    and name: "name = c0 # name'" and c0: "\<not> is_space c0"
    and rest: "rest = [] \<or> \<not> is_space (hd rest)"
    and fail: "\<And>pos marks. rx_match (lits name @ [One (Lit NL)]) pos rest marks = None"
  shows "search_from (hex_before name) pos (t @ s @ rest)
           = search_from (hex_before name) (pos + length t) (s @ rest)"
  using ns
proof (induction t arbitrary: pos)
  case Nil
  show ?case by simp
next
  case (Cons a t)
  have "rx_match (hex_before name) pos ((a # t) @ s @ rest) [] = None"
    by (rule hex_before_in_token[OF Cons.prems sp s name c0 rest fail])
  then show ?case using Cons by simp
qed

lemma space_not_zero: "is_space c \<Longrightarrow> c \<noteq> CHR ''0''"
  by (auto simp: is_space_def)

lemma search_skip_other_line:
  assumes ok: "entry_ok w t s" and name: "name = c0 # name'" and c0: "\<not> is_space c0"
    and miss: "misses name other"
  shows "search_from (hex_before name) pos (entry_line w t s other @ y)
           = search_from (hex_before name) (pos + length (entry_line w t s other)) y"
proof -
  from ok have w: "\<forall>c \<in> set w. is_space c" and t: "\<forall>c \<in> set t. \<not> is_space c"
    and sp: "\<forall>c \<in> set s. is_space c" and s: "s \<noteq> []"
    by (simp_all add: entry_ok_def list_all_iff)
  from miss have o1: "other \<noteq> []" and o2: "\<not> is_space (hd other)"
    and o3: "CHR ''0'' \<notin> set other"
    and fail: "\<And>pos marks. rx_match (lits name @ [One (Lit NL)]) pos (other @ NL # y) marks = None"
    by (simp_all add: misses_def)
  have tok: "\<forall>c \<in> set (''0x'' @ t). \<not> is_space c" using t by (simp add: is_space_def)
  have rest: "other @ NL # y = [] \<or> \<not> is_space (hd (other @ NL # y))" using o1 o2 by simp
  have "search_from (hex_before name) pos (entry_line w t s other @ y)
          = search_from (hex_before name) pos (w @ ((''0x'' @ t) @ s @ (other @ NL # y)))"
    by (simp add: entry_line_def)
  also have "\<dots> = search_from (hex_before name) (pos + length w)
                     ((''0x'' @ t) @ s @ (other @ NL # y))"
    by (rule search_skip_no_zero) (use w space_not_zero in blast)
  also have "\<dots> = search_from (hex_before name) (pos + length w + length (''0x'' @ t))
                     (s @ (other @ NL # y))"
    by (rule search_skip_token[OF tok sp s name c0 rest fail])
  also have "\<dots> = search_from (hex_before name)
                     (pos + length w + length (''0x'' @ t) + length s) (other @ NL # y)"
    by (rule search_skip_no_zero) (use sp space_not_zero in blast)
  also have "\<dots> = search_from (hex_before name)
                     (pos + length w + length (''0x'' @ t) + length s) ((other @ [NL]) @ y)"
    by simp
  also have "\<dots> = search_from (hex_before name)
                     (pos + length w + length (''0x'' @ t) + length s + length (other @ [NL])) y"
    by (rule search_skip_no_zero) (use o3 in auto)
  finally show ?thesis by (simp add: entry_line_def add.assoc)
qed

lemma search_finds_line:
  assumes ok: "entry_ok w t s" and name: "name = c0 # name'" and c0: "\<not> is_space c0"
  shows "search_from (hex_before name) pos (entry_line w t s name @ y)
           = Some [pos + length w, pos + length w + 2 + length t]"
proof -
  from ok have w: "\<forall>c \<in> set w. is_space c" and t: "\<forall>c \<in> set t. \<not> is_space c"
    and t0: "t \<noteq> []" and sp: "\<forall>c \<in> set s. is_space c" and s: "s \<noteq> []"
    by (simp_all add: entry_ok_def list_all_iff)
  have rest: "name @ NL # y = [] \<or> \<not> is_space (hd (name @ NL # y))"
    using name c0 by simp
  have m: "rx_match (hex_before name) (pos + length w) (''0x'' @ t @ s @ (name @ NL # y)) []
             = Some [pos + length w, pos + length w + 2 + length t]"
    unfolding hex_before_at_token[OF t t0 sp s name c0 rest]
    using rx_match_lits[of name "[One (Lit NL)]" _ "NL # y"]
    by simp
  have "search_from (hex_before name) pos (entry_line w t s name @ y)
          = search_from (hex_before name) pos (w @ (''0x'' @ t @ s @ (name @ NL # y)))"
    by (simp add: entry_line_def)
  also have "\<dots> = search_from (hex_before name) (pos + length w)
                     (''0x'' @ t @ s @ (name @ NL # y))"
    by (rule search_skip_no_zero) (use w space_not_zero in blast)
  also have "\<dots> = Some [pos + length w, pos + length w + 2 + length t]"
    using m by simp
  finally show ?thesis .
qed

lemma group_of_line:
  "group (pre @ entry_line w t s name @ y)
     [length pre + length w, length pre + length w + 2 + length t] 1 = Inr (''0x'' @ t)"
proof -
  have "pre @ entry_line w t s name @ y = (pre @ w) @ (''0x'' @ t) @ (s @ name @ NL # y)"
    by (simp add: entry_line_def)
  then show ?thesis by (simp add: group_def)
qed

lemma misses_names:
  "misses ''_kb_layout'' ''_kb_layout_press''"
  "misses ''_kb_layout'' ''_kb_layout_release''"
  "misses ''_kb_layout_press'' ''_kb_layout''"
  "misses ''_kb_layout_press'' ''_kb_layout_release''"
  "misses ''_kb_layout_release'' ''_kb_layout''"
  "misses ''_kb_layout_release'' ''_kb_layout_press''"
  by (simp_all add: misses_def lits_def is_space_def)

lemma search_group_first:
  assumes "entry_ok w1 t1 s1" and "n1 = c0 # r" and "\<not> is_space c0"
  shows "search_group (hex_before n1) (entry_line w1 t1 s1 n1 @ y) 1 = Inr (''0x'' @ t1)"
  using search_finds_line[OF assms, of 0 y] group_of_line[of "[]" w1 t1 s1 n1 y]
  by (simp add: search_group_def re_search_def)

lemma search_group_second:
  assumes "entry_ok w1 t1 s1" and "entry_ok w2 t2 s2"
    and "n2 = c0 # r" and "\<not> is_space c0" and "misses n2 n1"
  shows "search_group (hex_before n2) (entry_line w1 t1 s1 n1 @ entry_line w2 t2 s2 n2 @ y) 1
           = Inr (''0x'' @ t2)"
  using search_skip_other_line[OF assms(1,3,4,5), of 0 "entry_line w2 t2 s2 n2 @ y"]
    search_finds_line[OF assms(2,3,4), of "length (entry_line w1 t1 s1 n1)" y]
    group_of_line[of "entry_line w1 t1 s1 n1" w2 t2 s2 n2 y]
  by (simp add: search_group_def re_search_def)

lemma search_group_third:
  assumes "entry_ok w1 t1 s1" and "entry_ok w2 t2 s2" and "entry_ok w3 t3 s3"
    and "n3 = c0 # r" and "\<not> is_space c0" and "misses n3 n1" and "misses n3 n2"
  shows "search_group (hex_before n3)
           (entry_line w1 t1 s1 n1 @ entry_line w2 t2 s2 n2 @ entry_line w3 t3 s3 n3 @ y) 1
           = Inr (''0x'' @ t3)"
proof -
  let ?L1 = "entry_line w1 t1 s1 n1" and ?L2 = "entry_line w2 t2 s2 n2"
  have "search_from (hex_before n3) 0 (?L1 @ ?L2 @ entry_line w3 t3 s3 n3 @ y)
          = search_from (hex_before n3) (length ?L1) (?L2 @ entry_line w3 t3 s3 n3 @ y)"
    using search_skip_other_line[OF assms(1,4,5,6), of 0] by simp
  also have "\<dots> = search_from (hex_before n3) (length ?L1 + length ?L2)
                     (entry_line w3 t3 s3 n3 @ y)"
    by (rule search_skip_other_line[OF assms(2,4,5,7)])
  also have "\<dots> = Some [length ?L1 + length ?L2 + length w3,
                         length ?L1 + length ?L2 + length w3 + 2 + length t3]"
    by (rule search_finds_line[OF assms(3,4,5)])
  finally show ?thesis
    using group_of_line[of "?L1 @ ?L2" w3 t3 s3 n3 y]
    by (simp add: search_group_def re_search_def)
qed

lemma search_three:
  assumes "entry_ok w1 t1 s1" and "entry_ok w2 t2 s2" and "entry_ok w3 t3 s3"
    and "n1 = c1 # r1" and "\<not> is_space c1"
    and "n2 = c2 # r2" and "\<not> is_space c2"
    and "n3 = c3 # r3" and "\<not> is_space c3"
    and "misses n2 n1" and "misses n3 n1" and "misses n3 n2"
  shows "search_group (hex_before n1)
           (entry_line w1 t1 s1 n1 @ entry_line w2 t2 s2 n2 @ entry_line w3 t3 s3 n3) 1
           = Inr (''0x'' @ t1)"
    and "search_group (hex_before n2)
           (entry_line w1 t1 s1 n1 @ entry_line w2 t2 s2 n2 @ entry_line w3 t3 s3 n3) 1
           = Inr (''0x'' @ t2)"
    and "search_group (hex_before n3)
           (entry_line w1 t1 s1 n1 @ entry_line w2 t2 s2 n2 @ entry_line w3 t3 s3 n3) 1
           = Inr (''0x'' @ t3)"
proof -
  show "search_group (hex_before n1)
           (entry_line w1 t1 s1 n1 @ entry_line w2 t2 s2 n2 @ entry_line w3 t3 s3 n3) 1
           = Inr (''0x'' @ t1)"
    by (rule search_group_first[OF assms(1,4,5)])
  show "search_group (hex_before n2)
           (entry_line w1 t1 s1 n1 @ entry_line w2 t2 s2 n2 @ entry_line w3 t3 s3 n3) 1
           = Inr (''0x'' @ t2)"
    by (rule search_group_second[OF assms(1,2,6,7,10)])
  show "search_group (hex_before n3)
           (entry_line w1 t1 s1 n1 @ entry_line w2 t2 s2 n2 @ entry_line w3 t3 s3 n3) 1
           = Inr (''0x'' @ t3)"
    using search_group_third[OF assms(1,2,3,8,9,11,12), of "[]"] by simp
qed

lemma block_searches:
  assumes a: "entry_ok wa ta sa" and b: "entry_ok wb tb sb" and c: "entry_ok wc tc sc"
    and perm: "(l1, l2, l3) \<in>
      {(entry_line wa ta sa ''_kb_layout'', entry_line wb tb sb ''_kb_layout_press'',
          entry_line wc tc sc ''_kb_layout_release''),
       (entry_line wa ta sa ''_kb_layout'', entry_line wc tc sc ''_kb_layout_release'',
          entry_line wb tb sb ''_kb_layout_press''),
       (entry_line wb tb sb ''_kb_layout_press'', entry_line wa ta sa ''_kb_layout'',
          entry_line wc tc sc ''_kb_layout_release''),
       (entry_line wb tb sb ''_kb_layout_press'', entry_line wc tc sc ''_kb_layout_release'',
          entry_line wa ta sa ''_kb_layout''),
       (entry_line wc tc sc ''_kb_layout_release'', entry_line wa ta sa ''_kb_layout'',
          entry_line wb tb sb ''_kb_layout_press''),
       (entry_line wc tc sc ''_kb_layout_release'', entry_line wb tb sb ''_kb_layout_press'',
          entry_line wa ta sa ''_kb_layout'')}"
  shows "search_group (hex_before ''_kb_layout'') (l1 @ l2 @ l3) 1 = Inr (''0x'' @ ta)
       \<and> search_group (hex_before ''_kb_layout_press'') (l1 @ l2 @ l3) 1 = Inr (''0x'' @ tb)
       \<and> search_group (hex_before ''_kb_layout_release'') (l1 @ l2 @ l3) 1 = Inr (''0x'' @ tc)"
proof -
  have u: "\<not> is_space CHR ''_''" by (simp add: is_space_def)
  note m = misses_names
  from perm consider
      (abc) "l1 = entry_line wa ta sa ''_kb_layout''" "l2 = entry_line wb tb sb ''_kb_layout_press''"
            "l3 = entry_line wc tc sc ''_kb_layout_release''"
    | (acb) "l1 = entry_line wa ta sa ''_kb_layout''" "l2 = entry_line wc tc sc ''_kb_layout_release''"
            "l3 = entry_line wb tb sb ''_kb_layout_press''"
    | (bac) "l1 = entry_line wb tb sb ''_kb_layout_press''" "l2 = entry_line wa ta sa ''_kb_layout''"
            "l3 = entry_line wc tc sc ''_kb_layout_release''"
    | (bca) "l1 = entry_line wb tb sb ''_kb_layout_press''" "l2 = entry_line wc tc sc ''_kb_layout_release''"
            "l3 = entry_line wa ta sa ''_kb_layout''"
    | (cab) "l1 = entry_line wc tc sc ''_kb_layout_release''" "l2 = entry_line wa ta sa ''_kb_layout''"
            "l3 = entry_line wb tb sb ''_kb_layout_press''"
    | (cba) "l1 = entry_line wc tc sc ''_kb_layout_release''" "l2 = entry_line wb tb sb ''_kb_layout_press''"
            "l3 = entry_line wa ta sa ''_kb_layout''"
    by auto
  then show ?thesis
  proof cases
    case abc
    show ?thesis unfolding abc
      using search_three[OF a b c _ u _ u _ u m(3) m(5) m(6)] by simp
  next
    case acb
    show ?thesis unfolding acb
      using search_three[OF a c b _ u _ u _ u m(5) m(3) m(4)] by simp
  next
    case bac
    show ?thesis unfolding bac
      using search_three[OF b a c _ u _ u _ u m(1) m(6) m(5)] by simp
  next
    case bca
    show ?thesis unfolding bca
      using search_three[OF b c a _ u _ u _ u m(6) m(1) m(2)] by simp
  next
    case cab
    show ?thesis unfolding cab
      using search_three[OF c a b _ u _ u _ u m(2) m(4) m(3)] by simp
  next
    case cba
    show ?thesis unfolding cba
      using search_three[OF c b a _ u _ u _ u m(4) m(2) m(1)] by simp
  qed
qed

text \<open>
  C7 as stated fails for the length token \<^verbatim>\<open>0x28000000000004\<close>
  (5 * 2^51 + 4): the float quotient rounds up, and the base length is one more than the
  integer quotient 2251799813685248.
\<close>

theorem parse_layout_matrices_rounds_up:
  "parse_layout_matrices
     [''   0x00001000   _kb_layout'' @ [NL], ''   0x000010fc   _kb_layout_press'' @ [NL],
      ''   0x000012f4   _kb_layout_release'' @ [NL]]
     ('' .progmem.data.layout  0x00001000   0x28000000000004'' @ [NL])
   = Inr (PDict [(''layout-matrices'', PDict [
            (''_kb_layout'', PDict [
               (''position'', PInt 4096), (''length'', PInt 2251799813685249)]),
            (''_kb_layout_press'', PDict [
               (''position'', PInt 4348), (''length'', PInt 4503599627370498)]),
            (''_kb_layout_release'', PDict [
               (''position'', PInt 4852), (''length'', PInt 4503599627370498)])])], [])
   \<and> py_int16 ''0x28000000000004'' = Inr 11258999068426244
   \<and> (11258999068426244::int) div 5 = 2251799813685248"
  by code_simp

text \<open>
  C7, amended: the length token has a value \<open>L\<close> from 0 up to (not including)
  5 * 2^51; the three lines that follow are, in any order, the lines of the three
  names, each made of spaces, a token that starts with \<^verbatim>\<open>0x\<close>, spaces, the name and
  the newline; no position is zero. Then \<^verbatim>\<open>_kb_layout\<close> has length \<open>L div 5\<close>, the
  other two have twice that, and each position is the value of the token on the line
  of its name.
\<close>

theorem layout_lengths_and_positions:
  assumes "search_group hex_then_hex line 1 = Inr tok"
    and "py_int16 tok = Inr total_length"
    and "0 \<le> total_length" and "total_length < 5 * 2 ^ 51"
    and "entry_ok wa ta sa" and "entry_ok wb tb sb" and "entry_ok wc tc sc"
    and "py_int16 (''0x'' @ ta) = Inr pa" and "py_int16 (''0x'' @ tb) = Inr pb"
    and "py_int16 (''0x'' @ tc) = Inr pc"
    and "pa \<noteq> 0" and "pb \<noteq> 0" and "pc \<noteq> 0"
    and "(l1, l2, l3) \<in>
      {(entry_line wa ta sa ''_kb_layout'', entry_line wb tb sb ''_kb_layout_press'',
          entry_line wc tc sc ''_kb_layout_release''),
       (entry_line wa ta sa ''_kb_layout'', entry_line wc tc sc ''_kb_layout_release'',
          entry_line wb tb sb ''_kb_layout_press''),
       (entry_line wb tb sb ''_kb_layout_press'', entry_line wa ta sa ''_kb_layout'',
          entry_line wc tc sc ''_kb_layout_release''),
       (entry_line wb tb sb ''_kb_layout_press'', entry_line wc tc sc ''_kb_layout_release'',
          entry_line wa ta sa ''_kb_layout''),
       (entry_line wc tc sc ''_kb_layout_release'', entry_line wa ta sa ''_kb_layout'',
          entry_line wb tb sb ''_kb_layout_press''),
       (entry_line wc tc sc ''_kb_layout_release'', entry_line wb tb sb ''_kb_layout_press'',
          entry_line wa ta sa ''_kb_layout'')}"
  shows "parse_layout_matrices (l1 # l2 # l3 # f) line =
     Inr (PDict [(''layout-matrices'', PDict [
            (''_kb_layout'', PDict [
               (''position'', PInt pa), (''length'', PInt (total_length div 5))]),
            (''_kb_layout_press'', PDict [
               (''position'', PInt pb), (''length'', PInt (total_length div 5 * 2))]),
            (''_kb_layout_release'', PDict [
               (''position'', PInt pc), (''length'', PInt (total_length div 5 * 2))])])],
          f)"
proof -
  have "total_length div 5 < 2 ^ 51" using assms(4) by simp
  then have d: "int_truediv total_length 5 = Inr (total_length div 5)"
    by (intro int_truediv_exact[where w = 51] assms(3)) simp_all
  from block_searches[OF assms(5,6,7,14)]
  have s1: "search_group (hex_before ''_kb_layout'') (l1 @ l2 @ l3) 1 = Inr (''0x'' @ ta)"
    and s2: "search_group (hex_before ''_kb_layout_press'') (l1 @ l2 @ l3) 1 = Inr (''0x'' @ tb)"
    and s3: "search_group (hex_before ''_kb_layout_release'') (l1 @ l2 @ l3) 1 = Inr (''0x'' @ tc)"
    by simp_all
  from parse_layout_matrices_found[OF assms(1,2) d s1 s2 s3 assms(8,9,10), of f]
  show ?thesis using assms(11,12,13) by simp
qed

theorem layout_lengths_and_positions_witness:
  "parse_layout_matrices
     [entry_line ''  '' ''000012f4'' ''   '' ''_kb_layout_release'',
      entry_line ''  '' ''00001000'' ''   '' ''_kb_layout'',
      entry_line [] ''000010fc'' '' '' ''_kb_layout_press'']
     ('' .progmem.data.layout  0x00001000   0x000004ec'' @ [NL])
   = Inr (PDict [(''layout-matrices'', PDict [
            (''_kb_layout'', PDict [(''position'', PInt 4096), (''length'', PInt 252)]),
            (''_kb_layout_press'', PDict [(''position'', PInt 4348), (''length'', PInt 504)]),
            (''_kb_layout_release'', PDict [(''position'', PInt 4852), (''length'', PInt 504)])])],
          [])
   \<and> entry_line ''  '' ''00001000'' ''   '' ''_kb_layout'' = ''  0x00001000   _kb_layout'' @ [NL]"
proof -
  have a1: "search_group hex_then_hex
      ('' .progmem.data.layout  0x00001000   0x000004ec'' @ [NL]) 1 = Inr ''0x000004ec''"
    by code_simp
  have a2: "py_int16 ''0x000004ec'' = Inr 1260" by code_simp
  have a3: "(0::int) \<le> 1260" and a4: "(1260::int) < 5 * 2 ^ 51" by simp_all
  have oa: "entry_ok ''  '' ''00001000'' ''   ''" by (simp add: entry_ok_def is_space_def)
  have ob: "entry_ok [] ''000010fc'' '' ''" by (simp add: entry_ok_def is_space_def)
  have oc: "entry_ok ''  '' ''000012f4'' ''   ''" by (simp add: entry_ok_def is_space_def)
  have pa: "py_int16 (''0x'' @ ''00001000'') = Inr 4096" by code_simp
  have pb: "py_int16 (''0x'' @ ''000010fc'') = Inr 4348" by code_simp
  have pc: "py_int16 (''0x'' @ ''000012f4'') = Inr 4852" by code_simp
  have nz: "(4096::int) \<noteq> 0" "(4348::int) \<noteq> 0" "(4852::int) \<noteq> 0" by simp_all
  have e: "entry_line ''  '' ''00001000'' ''   '' ''_kb_layout'' = ''  0x00001000   _kb_layout'' @ [NL]"
    by (simp add: entry_line_def)
  from layout_lengths_and_positions[OF a1 a2 a3 a4 oa ob oc pa pb pc nz,
      of "entry_line ''  '' ''000012f4'' ''   '' ''_kb_layout_release''"
         "entry_line ''  '' ''00001000'' ''   '' ''_kb_layout''"
         "entry_line [] ''000010fc'' '' '' ''_kb_layout_press''" "[]"]
  show ?thesis using e by simp
qed

section \<open>The comment block a function is bound to\<close>

lemma read_comments_loop_block:
  assumes "py_strip line \<noteq> ''*/''" and "\<forall>l \<in> set body. py_strip l \<noteq> ''*/''"
    and "py_strip closer = ''*/''"
  shows "read_comments_loop acc line (body @ closer # f)
           = Inr (acc @ block_text (line # body), f)"
  using assms
proof (induction body arbitrary: acc line)
  case Nil
  then show ?case by (cases f) (simp_all add: block_text_def)
next
  case (Cons l body)
  then show ?case by (simp add: block_text_def)
qed

lemma scan_lines_reads_block:
  assumes "py_strip opener = ''/*''" and "\<forall>l \<in> set body. py_strip l \<noteq> ''*/''"
    and "py_strip closer = ''*/''"
  shows "scan_lines comments output (opener # body @ closer # f)
           = scan_lines (block_text (opener # body)) output f"
proof -
  have "py_strip opener \<noteq> ''*/''" using assms(1) by simp
  from read_comments_loop_block[OF this assms(2,3), of "[]" f]
  show ?thesis using assms(1) by (simp add: read_comments_def)
qed

lemma scan_lines_keeps_comments:
  "\<forall>l \<in> set pre. py_strip l \<noteq> ''/*'' \<Longrightarrow>
   scan_lines comments output pre = Inr (c', out') \<Longrightarrow> c' = comments"
proof (induction pre arbitrary: "output")
  case Nil
  then show ?case by simp
next
  case (Cons l pre)
  then show ?case by (auto split: if_splits sum.splits)
qed

lemma scan_lines_append:
  "\<forall>l \<in> set pre. py_strip l \<noteq> ''/*'' \<Longrightarrow>
   scan_lines comments output (pre @ rest) =
     (case scan_lines comments output pre of
        Inl e \<Rightarrow> Inl e
      | Inr (c', out') \<Rightarrow> scan_lines c' out' rest)"
proof (induction pre arbitrary: "output")
  case Nil
  then show ?case by simp
next
  case (Cons l pre)
  then show ?case by (auto split: if_splits sum.splits)
qed

lemma set_py_strip: "set s \<subseteq> {c. is_space c} \<union> set (py_strip s)"
proof -
  define d where "d = dropWhile is_space s"
  have "set s = set (takeWhile is_space s) \<union> set d"
    unfolding d_def by (metis set_append takeWhile_dropWhile_id)
  moreover have "set d = set (takeWhile is_space (rev d)) \<union> set (dropWhile is_space (rev d))"
    by (metis set_append set_rev takeWhile_dropWhile_id)
  moreover have "set (takeWhile is_space xs) \<subseteq> {c. is_space c}" for xs
    by (auto dest: set_takeWhileD)
  ultimately show ?thesis by (auto simp: py_strip_def d_def)
qed

lemma search_needs_first_char:
  "c \<notin> set s \<Longrightarrow> search_from (One (Lit c) # r) pos s = None"
  by (induction s arbitrary: pos) auto

lemma opener_is_no_declaration:
  assumes "py_strip line = ''/*''"
  shows "re_search kbfun_decl line = None"
proof -
  have "CHR ''v'' \<notin> set line"
    using set_py_strip[of line] assms by (auto simp: is_space_def)
  then show ?thesis
    by (simp add: re_search_def kbfun_decl_def lits_def search_needs_first_char)
qed

lemma scan_lines_declaration:
  assumes "search_group kbfun_decl line 1 = Inr name"
    and "parse_comments comments = Inr c"
  shows "scan_lines comments output [line] =
           Inr (comments, dict_merge output
             (PDict [(''keyboard-functions'', PDict [(name, PDict [(''comments'', c)])])]))"
proof -
  from assms(1) have m: "re_search kbfun_decl line \<noteq> None"
    by (auto simp: search_group_def split: option.splits)
  with opener_is_no_declaration[of line] have "py_strip line \<noteq> ''/*''" by auto
  with m assms show ?thesis by (simp add: source_parse_keyboard_function_def)
qed

lemma scan_lines_then_declaration:
  assumes pre: "\<forall>l \<in> set pre. py_strip l \<noteq> ''/*''"
    and run: "scan_lines comments output pre = Inr (c', out1)"
    and decl: "search_group kbfun_decl line 1 = Inr name"
    and pc: "parse_comments comments = Inr c"
  shows "scan_lines comments output (pre @ [line]) =
           Inr (comments, dict_merge out1
             (PDict [(''keyboard-functions'', PDict [(name, PDict [(''comments'', c)])])]))"
proof -
  have "c' = comments" by (rule scan_lines_keeps_comments[OF pre run])
  with run have "scan_lines comments output (pre @ [line]) = scan_lines comments out1 [line]"
    by (simp add: scan_lines_append[OF pre] del: scan_lines.simps)
  then show ?thesis by (simp only: scan_lines_declaration[OF decl pc])
qed

text \<open>
  C2 as stated fails: in this file no comment block stands
  immediately before \<^verbatim>\<open>kbfun_b\<close>, and it is recorded with the comments of
  \<^verbatim>\<open>kbfun_a\<close>.
\<close>

theorem parse_source_code_reuses_comment:
  "parse_source_code [(''src/a.c'',
     [''/*'' @ [NL], '' * [name]'' @ [NL], '' * A'' @ [NL], '' */'' @ [NL],
      ''void kbfun_a(void) {'' @ [NL], ''}'' @ [NL], ''void kbfun_b(void) {'' @ [NL],
      ''}'' @ [NL]])]
   = Inr (PDict [(''keyboard-functions'', PDict [
            (''kbfun_a'', PDict [(''comments'', PDict [(''name'', PStr ''A'')])]),
            (''kbfun_b'', PDict [(''comments'', PDict [(''name'', PStr ''A'')])])])])"
  by code_simp

text \<open>
  C2, amended: a matched function is recorded with the comments parsed from the block
  read most recently in its file, whatever lines (other functions too) stand between
  the block and the function. In a file where no comment block was read before the
  function, its comments are the empty mapping: the scan of every file starts with
  the empty block.
\<close>

theorem function_bound_to_latest_block:
  "(py_strip opener = ''/*'' \<and> (\<forall>l \<in> set body. py_strip l \<noteq> ''*/'') \<and> py_strip closer = ''*/''
      \<and> (\<forall>l \<in> set mid. py_strip l \<noteq> ''/*'')
      \<and> scan_lines (block_text (opener # body)) output mid = Inr (c', out1)
      \<and> search_group kbfun_decl line 1 = Inr name
      \<and> parse_comments (block_text (opener # body)) = Inr c
    \<longrightarrow> scan_lines comments output (opener # body @ closer # mid @ [line]) =
          Inr (block_text (opener # body), dict_merge out1
            (PDict [(''keyboard-functions'', PDict [(name, PDict [(''comments'', c)])])])))
   \<and> (drop (length file_name - 2) file_name = ''.c''
      \<and> (\<forall>l \<in> set pre. py_strip l \<noteq> ''/*'')
      \<and> scan_lines [] output pre = Inr (c'', out2)
      \<and> search_group kbfun_decl line 1 = Inr name
    \<longrightarrow> source_files_loop output [(file_name, pre @ [line])] =
          Inr (dict_merge out2
            (PDict [(''keyboard-functions'', PDict [(name, PDict [(''comments'', PDict [])])])])))"
proof (intro conjI impI)
  assume h: "py_strip opener = ''/*'' \<and> (\<forall>l \<in> set body. py_strip l \<noteq> ''*/'')
      \<and> py_strip closer = ''*/'' \<and> (\<forall>l \<in> set mid. py_strip l \<noteq> ''/*'')
      \<and> scan_lines (block_text (opener # body)) output mid = Inr (c', out1)
      \<and> search_group kbfun_decl line 1 = Inr name
      \<and> parse_comments (block_text (opener # body)) = Inr c"
  then have blk: "scan_lines comments output (opener # body @ closer # mid @ [line])
                    = scan_lines (block_text (opener # body)) output (mid @ [line])"
    by (intro scan_lines_reads_block) simp_all
  from h show "scan_lines comments output (opener # body @ closer # mid @ [line]) =
          Inr (block_text (opener # body), dict_merge out1
            (PDict [(''keyboard-functions'', PDict [(name, PDict [(''comments'', c)])])]))"
    unfolding blk by (intro scan_lines_then_declaration) simp_all
next
  assume h: "drop (length file_name - 2) file_name = ''.c''
      \<and> (\<forall>l \<in> set pre. py_strip l \<noteq> ''/*'')
      \<and> scan_lines [] output pre = Inr (c'', out2)
      \<and> search_group kbfun_decl line 1 = Inr name"
  have e: "parse_comments [] = Inr (PDict [])" by (rule parse_comments_empty)
  from h have "scan_lines [] output (pre @ [line]) =
          Inr ([], dict_merge out2
            (PDict [(''keyboard-functions'', PDict [(name, PDict [(''comments'', PDict [])])])]))"
    by (intro scan_lines_then_declaration[OF _ _ _ e]) simp_all
  with h show "source_files_loop output [(file_name, pre @ [line])] =
          Inr (dict_merge out2
            (PDict [(''keyboard-functions'', PDict [(name, PDict [(''comments'', PDict [])])])]))"
    by simp
qed

theorem function_bound_to_latest_block_witness:
  "scan_lines [] (PDict [])
     ((''/*'' @ [NL]) # ['' * [name]'' @ [NL], '' * A'' @ [NL]] @ ('' */'' @ [NL])
        # [''void kbfun_a(void) {'' @ [NL], ''}'' @ [NL]] @ [''void kbfun_b(void) {'' @ [NL]])
   = Inr ([NL] @ ''[name]'' @ [NL] @ ''A'' @ [NL],
       PDict [(''keyboard-functions'', PDict [
         (''kbfun_a'', PDict [(''comments'', PDict [(''name'', PStr ''A'')])]),
         (''kbfun_b'', PDict [(''comments'', PDict [(''name'', PStr ''A'')])])])])
   \<and> source_files_loop (PDict []) [(''src/b.c'', [''#include <b.h>'' @ [NL]] @ [''void kbfun_c(void) {'' @ [NL]])]
     = Inr (PDict [(''keyboard-functions'', PDict [(''kbfun_c'', PDict [(''comments'', PDict [])])])])"
proof -
  have bt: "block_text ((''/*'' @ [NL]) # ['' * [name]'' @ [NL], '' * A'' @ [NL]])
              = [NL] @ ''[name]'' @ [NL] @ ''A'' @ [NL]"
    by code_simp
  have a1: "py_strip (''/*'' @ [NL]) = ''/*''" by code_simp
  have a2: "\<forall>l \<in> set ['' * [name]'' @ [NL], '' * A'' @ [NL]]. py_strip l \<noteq> ''*/''"
    by code_simp
  have a3: "py_strip ('' */'' @ [NL]) = ''*/''" by code_simp
  have a4: "\<forall>l \<in> set [''void kbfun_a(void) {'' @ [NL], ''}'' @ [NL]]. py_strip l \<noteq> ''/*''"
    by code_simp
  have a5: "scan_lines (block_text ((''/*'' @ [NL]) # ['' * [name]'' @ [NL], '' * A'' @ [NL]]))
              (PDict []) [''void kbfun_a(void) {'' @ [NL], ''}'' @ [NL]]
            = Inr ([NL] @ ''[name]'' @ [NL] @ ''A'' @ [NL],
                PDict [(''keyboard-functions'', PDict [
                  (''kbfun_a'', PDict [(''comments'', PDict [(''name'', PStr ''A'')])])])])"
    by code_simp
  have a6: "search_group kbfun_decl (''void kbfun_b(void) {'' @ [NL]) 1 = Inr ''kbfun_b''"
    by code_simp
  have a7: "parse_comments (block_text ((''/*'' @ [NL]) # ['' * [name]'' @ [NL], '' * A'' @ [NL]]))
              = Inr (PDict [(''name'', PStr ''A'')])"
    by code_simp
  have b1: "drop (length ''src/b.c'' - 2) ''src/b.c'' = ''.c''" by simp
  have b2: "\<forall>l \<in> set [''#include <b.h>'' @ [NL]]. py_strip l \<noteq> ''/*''" by code_simp
  have b3: "scan_lines [] (PDict []) [''#include <b.h>'' @ [NL]] = Inr ([], PDict [])"
    by code_simp
  have b4: "search_group kbfun_decl (''void kbfun_c(void) {'' @ [NL]) 1 = Inr ''kbfun_c''"
    by code_simp
  have m1: "dict_merge (PDict [(''keyboard-functions'', PDict [
                  (''kbfun_a'', PDict [(''comments'', PDict [(''name'', PStr ''A'')])])])])
              (PDict [(''keyboard-functions'', PDict [(''kbfun_b'',
                  PDict [(''comments'', PDict [(''name'', PStr ''A'')])])])])
            = PDict [(''keyboard-functions'', PDict [
                (''kbfun_a'', PDict [(''comments'', PDict [(''name'', PStr ''A'')])]),
                (''kbfun_b'', PDict [(''comments'', PDict [(''name'', PStr ''A'')])])])]"
    by simp
  have m2: "dict_merge (PDict [])
              (PDict [(''keyboard-functions'', PDict [(''kbfun_c'', PDict [(''comments'', PDict [])])])])
            = PDict [(''keyboard-functions'', PDict [(''kbfun_c'', PDict [(''comments'', PDict [])])])]"
    by simp
  note t = function_bound_to_latest_block[of "''/*'' @ [NL]"
      "['' * [name]'' @ [NL], '' * A'' @ [NL]]" "'' */'' @ [NL]"
      "[''void kbfun_a(void) {'' @ [NL], ''}'' @ [NL]]" "PDict []" _ _
      "''void kbfun_b(void) {'' @ [NL]" "''kbfun_b''" "PDict [(''name'', PStr ''A'')]" "[]"]
  from t[THEN conjunct1, rule_format, OF conjI[OF a1 conjI[OF a2 conjI[OF a3 conjI[OF a4
      conjI[OF a5 conjI[OF a6 a7]]]]]]]
  have w1: "scan_lines [] (PDict [])
     ((''/*'' @ [NL]) # ['' * [name]'' @ [NL], '' * A'' @ [NL]] @ ('' */'' @ [NL])
        # [''void kbfun_a(void) {'' @ [NL], ''}'' @ [NL]] @ [''void kbfun_b(void) {'' @ [NL]])
   = Inr ([NL] @ ''[name]'' @ [NL] @ ''A'' @ [NL],
       PDict [(''keyboard-functions'', PDict [
         (''kbfun_a'', PDict [(''comments'', PDict [(''name'', PStr ''A'')])]),
         (''kbfun_b'', PDict [(''comments'', PDict [(''name'', PStr ''A'')])])])])"
    unfolding bt m1 .
  note u = function_bound_to_latest_block[of _ _ _ _ "PDict []" _ _
      "''void kbfun_c(void) {'' @ [NL]" "''kbfun_c''" _ _ "''src/b.c''" "[''#include <b.h>'' @ [NL]]"]
  from u[THEN conjunct2, rule_format, OF conjI[OF b1 conjI[OF b2 conjI[OF b3 b4]]]]
  have w2: "source_files_loop (PDict []) [(''src/b.c'', [''#include <b.h>'' @ [NL]] @ [''void kbfun_c(void) {'' @ [NL]])]
     = Inr (PDict [(''keyboard-functions'', PDict [(''kbfun_c'', PDict [(''comments'', PDict [])])])])"
    unfolding m2 .
  from w1 w2 show ?thesis by (rule conjI)
qed

end
